theory Spec2Isabelle
  imports Complex_Main
begin

section \<open>The finite-difference Laplace solver of TD8\<close>

text \<open>
  The notebook \<^verbatim>\<open>src/unnamed/part_000\<close> builds the linear system \<open>A X = B\<close> of the
  2D Laplace problem on an \<open>N \<times> N\<close> grid (\<^verbatim>\<open>matrix_builder\<close>), solves it with
  an LU solver of scipy (\<^verbatim>\<open>matrix_solver\<close>), reshapes the solution to a field and
  plots it (\<^verbatim>\<open>plot_solution\<close>, \<^verbatim>\<open>naive_solver\<close>).

  Modelling decisions:
  \<^item> \<open>N\<close> is a Python \<^verbatim>\<open>int\<close>, an \<open>int\<close>. \<open>L\<close> is a finite number of the built-in type
    \<^verbatim>\<open>int\<close> or \<^verbatim>\<open>float\<close>, as in a call typed into the notebook, and the model takes its
    value, a \<open>real\<close>. Outside the model are the floats inf and nan, and a numpy scalar for
    \<open>L\<close> (\<^verbatim>\<open>numpy.float64\<close> and the like), whose division by zero or beyond the range of the
    doubles gives inf or nan and a warning and no exception.
  \<^item> A finite double is the real it denotes, and an operation on doubles is the exact
    operation followed by the rounding \<open>rnd\<close> to the nearest double, ties to even. This
    covers every operation that decides the grid and the test of line 97: Python's
    \<^verbatim>\<open>L/2\<close>, the arithmetic of \<^verbatim>\<open>np.linspace\<close>, \<^verbatim>\<open>np.abs\<close> and \<^verbatim>\<open><\<close>. The two zeros are one
    value; no operation of the builder tells them apart.
  \<^item> The value of the nested function \<open>g\<close> is the exact real
    \<open>cos (2 \<pi> / L (2 x + y))\<close>: the rounding of its products, of its quotient and of
    \<^verbatim>\<open>np.cos\<close> is not modelled, nor is the overflow of the quotient for \<open>\<bar>L\<bar>\<close> below about
    \<open>2\<^sup>-\<^sup>1\<^sup>0\<^sup>2\<^sup>1\<close>, where the code stores nan. The entries \<open>-4.0\<close>, \<open>1.0\<close> and \<open>0.0\<close> of the
    arrays are exact.
  \<^item> A 1D numpy array is a \<open>real list\<close>, a 2D array a list of rows. The model has no bound
    on the size of an array.
  \<^item> Every exception the code can raise is a value of \<open>error\<close>, and a function that can
    raise returns \<open>error + 'a\<close>.
  \<^item> The \<^verbatim>\<open>for\<close> loops are folds over \<open>[0..<n]\<close> that stop at the first error.
\<close>

subsection \<open>Errors and sequencing\<close>

datatype error = ValueError | IndexError | ZeroDivisionError | OverflowError

type_synonym vector = "real list"
type_synonym matrix = "real list list"

definition bindE :: "error + 'a \<Rightarrow> ('a \<Rightarrow> error + 'b) \<Rightarrow> error + 'b" where
  "bindE m f = (case m of Inl e \<Rightarrow> Inl e | Inr a \<Rightarrow> f a)"

fun foldE :: "('a \<Rightarrow> 's \<Rightarrow> error + 's) \<Rightarrow> 'a list \<Rightarrow> 's \<Rightarrow> error + 's" where
  "foldE f [] s = Inr s"
| "foldE f (a # as) s = bindE (f a s) (foldE f as)"

subsection \<open>Double-precision arithmetic\<close>

text \<open>
  Rounding to the nearest integer, ties to even.
\<close>

definition round_even :: "real \<Rightarrow> int" where
  "round_even t =
     (if t - of_int \<lfloor>t\<rfloor> < 1 / 2 then \<lfloor>t\<rfloor>
      else if 1 / 2 < t - of_int \<lfloor>t\<rfloor> then \<lfloor>t\<rfloor> + 1
      else if even \<lfloor>t\<rfloor> then \<lfloor>t\<rfloor> else \<lfloor>t\<rfloor> + 1)"

text \<open>
  The doubles around \<open>x\<close> are the multiples of \<open>quantum x\<close>: 53 significant bits for a
  normal number, and multiples of \<open>2\<^sup>-\<^sup>1\<^sup>0\<^sup>7\<^sup>4\<close> below \<open>2\<^sup>-\<^sup>1\<^sup>0\<^sup>2\<^sup>2\<close>, the subnormal range.
\<close>

definition quantum :: "real \<Rightarrow> real" where
  "quantum x = 2 powr of_int (max (\<lfloor>log 2 \<bar>x\<bar>\<rfloor> - 52) (- 1074))"

text \<open>
  The rounding of an exact result to a double. The exponent range has no upper end here:
  \<open>overflows\<close> tells when the rounded value would be infinite.
\<close>

definition rnd :: "real \<Rightarrow> real" where
  "rnd x = of_int (round_even (x / quantum x)) * quantum x"

definition overflows :: "real \<Rightarrow> bool" where
  "overflows x = (2 ^ 1024 - 2 ^ 970 \<le> \<bar>x\<bar>)"

subsection \<open>The numpy operations the builder uses\<close>

text \<open>
  \<^verbatim>\<open>np.linspace(start, stop, num)\<close> with the default \<^verbatim>\<open>endpoint=True\<close>, on doubles
  \<^verbatim>\<open>start\<close> and \<^verbatim>\<open>stop\<close>. A negative \<^verbatim>\<open>num\<close> raises ValueError. Otherwise, with
  \<^verbatim>\<open>div = num - 1\<close> and \<^verbatim>\<open>delta = stop - start\<close>, the array \<^verbatim>\<open>y = arange(0, num)\<close> becomes
  \<^verbatim>\<open>y * step\<close> with \<^verbatim>\<open>step = delta / div\<close> when \<^verbatim>\<open>div > 0\<close> and the step is not zero,
  \<^verbatim>\<open>(y / div) * delta\<close> when \<^verbatim>\<open>div > 0\<close> and the step is zero, and \<^verbatim>\<open>y * delta\<close> when
  \<^verbatim>\<open>div\<close> is not positive; then \<^verbatim>\<open>start\<close> is added, and for \<^verbatim>\<open>num > 1\<close> the last element is
  overwritten with \<^verbatim>\<open>stop\<close>. Every operation rounds. When \<^verbatim>\<open>delta\<close> overflows (a Python
  \<^verbatim>\<open>int\<close> \<open>L\<close> of magnitude \<open>2\<^sup>1\<^sup>0\<^sup>2\<^sup>4 - 2\<^sup>9\<^sup>7\<^sup>0\<close> or more) numpy fills the array with inf and
  nan, which the model does not have; the builder then fails at its first grid point
  with the OverflowError of \<open>g\<close>, in the code and in the model.
\<close>

definition linspace_entry :: "real \<Rightarrow> real \<Rightarrow> int \<Rightarrow> nat \<Rightarrow> real" where
  "linspace_entry start stop num i =
     (if 1 < num \<and> int i = num - 1 then stop
      else if 0 < num - 1 then
        (if rnd (rnd (stop - start) / rnd (of_int (num - 1))) = 0
         then rnd (rnd (rnd (rnd (real i) / rnd (of_int (num - 1))) * rnd (stop - start))
                   + start)
         else rnd (rnd (rnd (real i) * rnd (rnd (stop - start) / rnd (of_int (num - 1))))
                   + start))
      else rnd (rnd (rnd (real i) * rnd (stop - start)) + start))"

definition linspace :: "real \<Rightarrow> real \<Rightarrow> int \<Rightarrow> error + vector" where
  "linspace start stop num =
     (if num < 0 then Inl ValueError
      else Inr (map (linspace_entry start stop num) [0..<nat num]))"

text \<open>\<^verbatim>\<open>np.meshgrid(x, y, indexing='ij')\<close>: \<open>x_grid[i, j] = x[i]\<close>, \<open>y_grid[i, j] = y[j]\<close>.\<close>

definition meshgrid_ij :: "vector \<Rightarrow> vector \<Rightarrow> matrix \<times> matrix" where
  "meshgrid_ij x y = (map (\<lambda>xi. replicate (length y) xi) x, replicate (length x) y)"

definition shape0 :: "matrix \<Rightarrow> nat" where
  "shape0 M = length M"

definition shape1 :: "matrix \<Rightarrow> nat" where
  "shape1 M = (case M of [] \<Rightarrow> 0 | r # _ \<Rightarrow> length r)"

definition zeros :: "nat \<Rightarrow> vector" where
  "zeros n = replicate n 0"

definition zeros2 :: "nat \<Rightarrow> nat \<Rightarrow> matrix" where
  "zeros2 r c = replicate r (replicate c 0)"

text \<open>
  numpy's index normalisation on an axis of length \<open>n\<close>: an index in \<open>[0, n)\<close> is itself,
  an index in \<open>[-n, 0)\<close> counts from the end, anything else raises IndexError.
\<close>

definition norm_index :: "int \<Rightarrow> nat \<Rightarrow> error + nat" where
  "norm_index i n =
     (if 0 \<le> i \<and> i < int n then Inr (nat i)
      else if - int n \<le> i \<and> i < 0 then Inr (nat (i + int n))
      else Inl IndexError)"

text \<open>\<^verbatim>\<open>B[k] = v\<close> and \<^verbatim>\<open>A[r, c] = v\<close>.\<close>

definition setitem1 :: "vector \<Rightarrow> int \<Rightarrow> real \<Rightarrow> error + vector" where
  "setitem1 B k v = bindE (norm_index k (length B)) (\<lambda>k'. Inr (B[k' := v]))"

definition setitem2 :: "matrix \<Rightarrow> int \<times> int \<Rightarrow> real \<Rightarrow> error + matrix" where
  "setitem2 A rc v =
     bindE (norm_index (fst rc) (shape0 A)) (\<lambda>r'.
     bindE (norm_index (snd rc) (shape1 A)) (\<lambda>c'.
       Inr (A[r' := (A ! r')[c' := v]])))"

subsection \<open>\<^verbatim>\<open>matrix_builder\<close>\<close>

text \<open>
  The nested function \<^verbatim>\<open>g(x, y) = np.cos(2*np.pi/L * (2*x + y))\<close>. \<^verbatim>\<open>2*np.pi\<close> is a Python
  float, so for a built-in \<open>L\<close> the quotient \<^verbatim>\<open>2*np.pi/L\<close> is Python's: it raises
  ZeroDivisionError for \<open>L = 0\<close>, and OverflowError for an \<^verbatim>\<open>int\<close> \<open>L\<close> that has no double.
\<close>

definition g :: "real \<Rightarrow> real \<Rightarrow> real \<Rightarrow> error + real" where
  "g L x y = (if L = 0 then Inl ZeroDivisionError
              else if overflows L then Inl OverflowError
              else Inr (cos (2 * pi / L * (2 * x + y))))"

text \<open>
  The test of line 97, \<^verbatim>\<open>np.abs(x_grid[i, j]) < L/2 and np.abs(y_grid[i, j]) < L/2\<close>, a
  comparison of doubles.
\<close>

definition is_inside :: "real \<Rightarrow> matrix \<Rightarrow> matrix \<Rightarrow> nat \<Rightarrow> nat \<Rightarrow> bool" where
  "is_inside L x_grid y_grid i j =
     (\<bar>x_grid ! i ! j\<bar> < rnd (L / 2) \<and> \<bar>y_grid ! i ! j\<bar> < rnd (L / 2))"

text \<open>
  The five assignments of lines 98 to 102, as (column index, value) pairs in the order
  of the source; the row index is \<open>i*N + j\<close> in each.
\<close>

definition stencil :: "int \<Rightarrow> int \<Rightarrow> int \<Rightarrow> (int \<times> real) list" where
  "stencil N i j =
     [(i * N + j, -4),
      ((i - 1) * N + j, 1),
      ((i + 1) * N + j, 1),
      (i * N + j + 1, 1),
      (i * N + j - 1, 1)]"

text \<open>
  The body of the two loops for one grid point. The boundary function is a parameter
  \<open>gf\<close> of the model, so that the loop can be stated for any boundary function; the code
  itself runs it with the nested \<open>g\<close> only (see \<open>matrix_builder\<close> below).
\<close>

definition cell ::
  "(real \<Rightarrow> real \<Rightarrow> error + real) \<Rightarrow> int \<Rightarrow> real \<Rightarrow> matrix \<Rightarrow> matrix \<Rightarrow> nat \<Rightarrow> nat
     \<Rightarrow> matrix \<times> vector \<Rightarrow> error + matrix \<times> vector" where
  "cell gf N L x_grid y_grid i j AB =
     (if is_inside L x_grid y_grid i j
      then bindE (foldE (\<lambda>cv A. setitem2 A (int i * N + int j, fst cv) (snd cv))
                        (stencil N (int i) (int j)) (fst AB))
                 (\<lambda>A. Inr (A, snd AB))
      else bindE (setitem2 (fst AB) (int i * N + int j, int i * N + int j) 1) (\<lambda>A.
           bindE (gf (x_grid ! i ! j) (y_grid ! i ! j)) (\<lambda>v.
           bindE (setitem1 (snd AB) (int i * N + int j) v) (\<lambda>B.
             Inr (A, B)))))"

text \<open>
  The grid of lines 82 to 87. Python's \<^verbatim>\<open>L/2\<close> is the rounded quotient, and raises
  OverflowError when \<open>L\<close> is an \<^verbatim>\<open>int\<close> so large that the quotient has no double; the
  arguments are evaluated before \<^verbatim>\<open>np.linspace\<close> is entered.
\<close>

definition grid :: "int \<Rightarrow> real \<Rightarrow> error + matrix \<times> matrix" where
  "grid N L =
     (if overflows (L / 2) then Inl OverflowError
      else bindE (linspace (rnd (- L / 2)) (rnd (L / 2)) N) (\<lambda>x.
           bindE (linspace (rnd (- L / 2)) (rnd (L / 2)) N) (\<lambda>y.
             Inr (meshgrid_ij x y))))"

definition matrix_builder_g ::
  "(real \<Rightarrow> real \<Rightarrow> error + real) \<Rightarrow> int \<Rightarrow> real \<Rightarrow> error + matrix \<times> vector" where
  "matrix_builder_g gf N L =
     bindE (grid N L) (\<lambda>xy.
       foldE (\<lambda>i. foldE (\<lambda>j. cell gf N L (fst xy) (snd xy) i j) [0..<shape1 (fst xy)])
             [0..<shape0 (fst xy)]
             (zeros2 (nat (N * N)) (nat (N * N)), zeros (nat (N * N))))"

text \<open>\<^verbatim>\<open>matrix_builder(N, L)\<close> itself: the loop with the nested \<open>g\<close>.\<close>

definition matrix_builder :: "int \<Rightarrow> real \<Rightarrow> error + matrix \<times> vector" where
  "matrix_builder N L = matrix_builder_g (g L) N L"

subsection \<open>\<^verbatim>\<open>matrix_solver\<close>, \<^verbatim>\<open>plot_solution\<close> and \<^verbatim>\<open>naive_solver\<close>\<close>

text \<open>
  \<^verbatim>\<open>la.lu_solve(la.lu_factor(A), B)\<close> is code of scipy, not of the repository: the model
  takes it as a parameter \<open>lu\<close>.
\<close>

type_synonym lu_solver = "matrix \<Rightarrow> vector \<Rightarrow> error + vector"

definition matrix_solver :: "lu_solver \<Rightarrow> matrix \<Rightarrow> vector \<Rightarrow> error + vector" where
  "matrix_solver lu A B = lu A B"

text \<open>
  \<^verbatim>\<open>X.reshape((N, N))\<close> of line 117, in numpy's row-major order: row \<open>i\<close> of the result is
  \<open>X[i*N : (i+1)*N]\<close>. numpy raises ValueError for a negative \<open>N\<close> and when \<open>X\<close> has not
  \<open>N*N\<close> elements.
\<close>

definition reshape :: "vector \<Rightarrow> int \<Rightarrow> error + matrix" where
  "reshape X N =
     (if N < 0 \<or> int (length X) \<noteq> N * N then Inl ValueError
      else Inr (map (\<lambda>i. take (nat N) (drop (i * nat N) X)) [0..<nat N]))"

text \<open>\<^verbatim>\<open>z_grid.T\<close>, the transpose.\<close>

definition T :: "matrix \<Rightarrow> matrix" where
  "T z = map (\<lambda>j. map (\<lambda>row. row ! j) z) [0..<shape1 z]"

text \<open>
  What \<^verbatim>\<open>plt.pcolor(x_corner_points, y_corner_points, z_grid.T, cmap='jet')\<close> is given to
  draw. \<^verbatim>\<open>plot_solution\<close> returns nothing; the figure is its effect. \<^verbatim>\<open>h = L/(N - 1)\<close>
  raises ZeroDivisionError for \<open>N = 1\<close>; this quotient and \<^verbatim>\<open>L/2\<close> raise OverflowError when
  \<open>L\<close> is an \<^verbatim>\<open>int\<close> and the quotient has no double. The corner points are those of the
  code as long as their differences stay in the range of the doubles, which holds for
  \<open>\<bar>L\<bar> \<le> 2\<^sup>1\<^sup>0\<^sup>2\<^sup>2\<close>; the theorems below use the colours only.
\<close>

record figure =
  x_corner_points :: vector
  y_corner_points :: vector
  colours :: matrix

definition plot_solution :: "int \<Rightarrow> real \<Rightarrow> vector \<Rightarrow> error + figure" where
  "plot_solution N L X =
     (if N - 1 = 0 then Inl ZeroDivisionError
      else if overflows (L / of_int (N - 1)) then Inl OverflowError
      else bindE (reshape X N) (\<lambda>z_grid.
           if overflows (L / 2) then Inl OverflowError
           else
           bindE (linspace (rnd (rnd (- L / 2) - rnd (rnd (L / of_int (N - 1)) / 2)))
                           (rnd (rnd (L / 2) + rnd (rnd (L / of_int (N - 1)) / 2))) (N + 1)) (\<lambda>xc.
           bindE (linspace (rnd (rnd (- L / 2) - rnd (rnd (L / of_int (N - 1)) / 2)))
                           (rnd (rnd (L / 2) + rnd (rnd (L / of_int (N - 1)) / 2))) (N + 1)) (\<lambda>yc.
             Inr \<lparr>x_corner_points = xc, y_corner_points = yc, colours = T z_grid\<rparr>))))"

text \<open>
  \<^verbatim>\<open>naive_solver(N, L, plot=False)\<close>. The function has no \<^verbatim>\<open>return\<close> statement, so the
  value of a call is \<^verbatim>\<open>None\<close>; the model returns that value together with the figures
  drawn.
\<close>

datatype pyvalue = PyNone | PyArray matrix

definition naive_solver :: "lu_solver \<Rightarrow> int \<Rightarrow> real \<Rightarrow> bool \<Rightarrow> error + pyvalue \<times> figure list" where
  "naive_solver lu N L plot =
     bindE (matrix_builder N L) (\<lambda>AB.
     bindE (matrix_solver lu (fst AB) (snd AB)) (\<lambda>X.
       if plot then bindE (plot_solution N L X) (\<lambda>fig. Inr (PyNone, [fig]))
       else Inr (PyNone, [])))"

subsection \<open>A solver for closed examples\<close>





subsection \<open>The builder on an explicit store\<close>

text \<open>
  numpy arrays are objects: \<^verbatim>\<open>np.zeros\<close> makes a new one, and \<^verbatim>\<open>A[r, c] = v\<close> and
  \<^verbatim>\<open>B[k] = v\<close> change one in place. To state what a call of the builder changes, the
  builder is modelled a second time on an explicit store: a list of arrays, in which an
  address is a position and a new array goes to the end. The arrays of \<^verbatim>\<open>np.linspace\<close> and
  \<^verbatim>\<open>np.meshgrid\<close> are new objects as well; the code neither writes to them nor returns them,
  so they remain values. An address is only ever obtained from \<open>new_array\<close>, so it is a
  position of the store it is used with.
\<close>

datatype ndarray = Array1 vector | Array2 matrix

type_synonym store = "ndarray list"

definition new_array :: "ndarray \<Rightarrow> store \<Rightarrow> nat \<times> store" where
  "new_array a s = (length s, s @ [a])"

text \<open>
  \<^verbatim>\<open>A[r, c] = v\<close> on the array at address \<open>p\<close>; with two indices a 1D array raises
  IndexError.
\<close>

definition store_setitem2 :: "nat \<Rightarrow> int \<times> int \<Rightarrow> real \<Rightarrow> store \<Rightarrow> error + store" where
  "store_setitem2 p rc v s =
     (case s ! p of
        Array2 A \<Rightarrow> bindE (setitem2 A rc v) (\<lambda>A'. Inr (s[p := Array2 A']))
      | Array1 B \<Rightarrow> Inl IndexError)"

text \<open>
  \<^verbatim>\<open>B[k] = v\<close> on the array at address \<open>p\<close>; on a 2D array numpy assigns \<open>v\<close> to the
  whole row \<open>k\<close>.
\<close>

definition store_setitem1 :: "nat \<Rightarrow> int \<Rightarrow> real \<Rightarrow> store \<Rightarrow> error + store" where
  "store_setitem1 p k v s =
     (case s ! p of
        Array1 B \<Rightarrow> bindE (setitem1 B k v) (\<lambda>B'. Inr (s[p := Array1 B']))
      | Array2 A \<Rightarrow> bindE (norm_index k (shape0 A)) (\<lambda>k'.
                     Inr (s[p := Array2 (A[k' := replicate (shape1 A) v])])))"

definition cell_store ::
  "(real \<Rightarrow> real \<Rightarrow> error + real) \<Rightarrow> int \<Rightarrow> real \<Rightarrow> matrix \<Rightarrow> matrix \<Rightarrow> nat \<Rightarrow> nat
     \<Rightarrow> nat \<Rightarrow> nat \<Rightarrow> store \<Rightarrow> error + store" where
  "cell_store gf N L x_grid y_grid pA pB i j s =
     (if is_inside L x_grid y_grid i j
      then foldE (\<lambda>cv s. store_setitem2 pA (int i * N + int j, fst cv) (snd cv) s)
                 (stencil N (int i) (int j)) s
      else bindE (store_setitem2 pA (int i * N + int j, int i * N + int j) 1 s) (\<lambda>s.
           bindE (gf (x_grid ! i ! j) (y_grid ! i ! j)) (\<lambda>v.
             store_setitem1 pB (int i * N + int j) v s)))"

text \<open>The call returns the addresses of \<open>A\<close> and \<open>B\<close>, and leaves the store it has changed.\<close>

definition matrix_builder_store ::
  "(real \<Rightarrow> real \<Rightarrow> error + real) \<Rightarrow> int \<Rightarrow> real \<Rightarrow> store \<Rightarrow> error + (nat \<times> nat) \<times> store" where
  "matrix_builder_store gf N L s =
     bindE (grid N L) (\<lambda>xy.
       case new_array (Array2 (zeros2 (nat (N * N)) (nat (N * N)))) s of (pA, s1) \<Rightarrow>
       case new_array (Array1 (zeros (nat (N * N)))) s1 of (pB, s2) \<Rightarrow>
         bindE (foldE (\<lambda>i. foldE (\<lambda>j. cell_store gf N L (fst xy) (snd xy) pA pB i j)
                                  [0..<shape1 (fst xy)])
                      [0..<shape0 (fst xy)] s2)
               (\<lambda>s'. Inr ((pA, pB), s')))"

text \<open>What the caller can read through the two addresses a call returns.\<close>

definition returned_arrays :: "error + (nat \<times> nat) \<times> store \<Rightarrow> error + ndarray \<times> ndarray" where
  "returned_arrays r = map_sum id (\<lambda>ps. (snd ps ! fst (fst ps), snd ps ! snd (fst ps))) r"

text \<open>The store \<open>s\<close> with \<open>A\<close> at address \<open>pA\<close> and \<open>B\<close> at address \<open>pB\<close>.\<close>

definition put_arrays :: "nat \<Rightarrow> nat \<Rightarrow> store \<Rightarrow> matrix \<times> vector \<Rightarrow> store" where
  "put_arrays pA pB s AB = s[pA := Array2 (fst AB), pB := Array1 (snd AB)]"

subsection \<open>The system the specification describes\<close>

text \<open>A grid point is interior when \<open>0 < i, j < N - 1\<close>.\<close>

definition interior :: "nat \<Rightarrow> nat \<Rightarrow> nat \<Rightarrow> bool" where
  "interior n i j = (0 < i \<and> i < n - 1 \<and> 0 < j \<and> j < n - 1)"

text \<open>
  The two row shapes: row \<open>k\<close> of an interior point has \<open>-4\<close> at \<open>k\<close> and \<open>1\<close> at
  \<open>k - N\<close>, \<open>k + N\<close>, \<open>k - 1\<close>, \<open>k + 1\<close>; row \<open>k\<close> of a boundary point has \<open>1\<close> at \<open>k\<close>.
\<close>

definition stencil_row :: "nat \<Rightarrow> nat \<Rightarrow> vector" where
  "stencil_row n k =
     map (\<lambda>c. if c = k then - 4
               else if c + n = k \<or> c = k + n \<or> c + 1 = k \<or> c = k + 1 then 1 else 0)
         [0..<n * n]"

definition boundary_row :: "nat \<Rightarrow> nat \<Rightarrow> vector" where
  "boundary_row n k = map (\<lambda>c. if c = k then 1 else 0) [0..<n * n]"

subsection \<open>The grid and the test as the code computes them\<close>

text \<open>
  The coordinate \<open>x\<^sub>i\<close> of the code, element \<open>i\<close> of \<^verbatim>\<open>np.linspace(-L/2, L/2, N)\<close>; the same
  double is \<open>y\<^sub>i\<close>.
\<close>

definition grid_point :: "nat \<Rightarrow> real \<Rightarrow> nat \<Rightarrow> real" where
  "grid_point n L i = linspace_entry (rnd (- L / 2)) (rnd (L / 2)) (int n) i"

text \<open>The test of line 97 at the grid point \<open>(i, j)\<close>.\<close>

definition inside_pt :: "nat \<Rightarrow> real \<Rightarrow> nat \<Rightarrow> nat \<Rightarrow> bool" where
  "inside_pt n L i j =
     (\<bar>grid_point n L i\<bar> < rnd (L / 2) \<and> \<bar>grid_point n L j\<bar> < rnd (L / 2))"

text \<open>Row \<open>k\<close> of \<open>A\<close> and entry \<open>k\<close> of \<open>B\<close>, by the outcome of the test.\<close>

definition row_of :: "nat \<Rightarrow> real \<Rightarrow> nat \<Rightarrow> vector" where
  "row_of n L k =
     (if inside_pt n L (k div n) (k mod n) then stencil_row n k else boundary_row n k)"

definition rhs_of :: "(real \<Rightarrow> real \<Rightarrow> real) \<Rightarrow> nat \<Rightarrow> real \<Rightarrow> nat \<Rightarrow> real" where
  "rhs_of gb n L k =
     (if inside_pt n L (k div n) (k mod n) then 0
      else gb (grid_point n L (k div n)) (grid_point n L (k mod n)))"

text \<open>
  The loop invariant: after the grid points with flat index below \<open>p\<close> have been visited,
  the rows and entries below \<open>p\<close> are final and the others are still zero.
\<close>

definition state_upto :: "(real \<Rightarrow> real \<Rightarrow> real) \<Rightarrow> nat \<Rightarrow> real \<Rightarrow> nat \<Rightarrow> matrix \<times> vector" where
  "state_upto gb n L p =
     (map (\<lambda>k. if k < p then row_of n L k else replicate (n * n) 0) [0..<n * n],
      map (\<lambda>k. if k < p then rhs_of gb n L k else 0) [0..<n * n])"

text \<open>The number of nonzero entries of a row and of a matrix.\<close>

definition nnz_row :: "vector \<Rightarrow> nat" where
  "nnz_row r = length (filter (\<lambda>v. v \<noteq> 0) r)"

definition nnz :: "matrix \<Rightarrow> nat" where
  "nnz A = sum_list (map nnz_row A)"

subsection \<open>The set of doubles\<close>

text \<open>
  The finite doubles, without the upper end of the exponent range: an integer of magnitude
  below \<open>2\<^sup>5\<^sup>3\<close> times a power of two not below \<open>2\<^sup>-\<^sup>1\<^sup>0\<^sup>7\<^sup>4\<close>.
\<close>

definition double :: "real \<Rightarrow> bool" where
  "double x = (\<exists>m e. x = of_int m * 2 powr of_int e \<and> \<bar>m\<bar> < 2 ^ 53 \<and> - 1074 \<le> e)"

definition ulp_exp :: "real \<Rightarrow> int" where
  "ulp_exp x = max (\<lfloor>log 2 \<bar>x\<bar>\<rfloor> - 52) (- 1074)"

subsection \<open>The codec and the linear system of the specification\<close>

text \<open>
  The specification's \<open>toField(X, N)\<close> is the reshape of line 117, \<open>reshape\<close> above.
\<close>

datatype codec_error = ShapeMismatchError

text \<open>
  Modelled from the spec: \<open>toVector(field, N)\<close> of section 4.3 is missing from the source,
  which never flattens a field. The specification makes it the inverse of \<open>toField\<close>, with
  \<open>field[i][j] = X[i N + j]\<close>, failing with ShapeMismatchError when the field is not
  \<open>N \<times> N\<close>.
\<close>

definition toVector :: "matrix \<Rightarrow> nat \<Rightarrow> codec_error + vector" where
  "toVector field N =
     (if length field = N \<and> (\<forall>r\<in>set field. length r = N) then Inr (concat field)
      else Inl ShapeMismatchError)"


section \<open>Properties of the builder\<close>

subsection \<open>Sequencing and loops\<close>

lemma bindE_Inr [simp]: "bindE (Inr a) f = f a"
  by (simp add: bindE_def)

lemma bindE_Inl [simp]: "bindE (Inl e) f = Inl e"
  by (simp add: bindE_def)

lemma foldE_append: "foldE f (xs @ ys) s = bindE (foldE f xs s) (foldE f ys)"
  by (induction xs arbitrary: s) (auto simp: bindE_def split: sum.splits)

lemma foldE_upt_Suc: "foldE f [0..<Suc n] s = bindE (foldE f [0..<n] s) (f n)"
  by (simp add: foldE_append bindE_def split: sum.splits)


subsection \<open>Rounding to a double\<close>

lemma round_even_error: "\<bar>of_int (round_even t) - t\<bar> \<le> 1 / 2"
  unfolding round_even_def by (auto simp: abs_le_iff)

lemma round_even_int [simp]: "round_even (of_int k) = k"
  by (simp add: round_even_def)

lemma round_even_0 [simp]: "round_even 0 = 0"
  by (simp add: round_even_def)

lemma round_even_cases:
  "round_even t = \<lfloor>t\<rfloor> \<or> round_even t = \<lfloor>t\<rfloor> + 1"
  by (simp add: round_even_def)

lemma round_even_le_int: "t \<le> of_int k \<Longrightarrow> round_even t \<le> k"
proof -
  assume a: "t \<le> of_int k"
  show ?thesis
  proof (cases "t = of_int k")
    case True then show ?thesis by simp
  next
    case False
    with a have "t < of_int k" by simp
    then have "\<lfloor>t\<rfloor> < k" by (simp add: floor_less_iff)
    then show ?thesis using round_even_cases[of t] by auto
  qed
qed

lemma round_even_ge_int: "of_int k \<le> t \<Longrightarrow> k \<le> round_even t"
proof -
  assume "of_int k \<le> t"
  then have "k \<le> \<lfloor>t\<rfloor>" by (simp add: le_floor_iff)
  then show ?thesis using round_even_cases[of t] by auto
qed

lemma round_even_mono: "s \<le> t \<Longrightarrow> round_even s \<le> round_even t"
proof -
  assume st: "s \<le> t"
  then have fl: "\<lfloor>s\<rfloor> \<le> \<lfloor>t\<rfloor>" by (rule floor_mono)
  show ?thesis
  proof (cases "\<lfloor>s\<rfloor> = \<lfloor>t\<rfloor>")
    case True
    with st show ?thesis by (auto simp: round_even_def)
  next
    case False
    with fl have "\<lfloor>s\<rfloor> + 1 \<le> \<lfloor>t\<rfloor>" by simp
    moreover have "round_even s \<le> \<lfloor>s\<rfloor> + 1" using round_even_cases[of s] by auto
    moreover have "\<lfloor>t\<rfloor> \<le> round_even t" using round_even_cases[of t] by auto
    ultimately show ?thesis by linarith
  qed
qed

lemma round_even_minus: "round_even (- t) = - round_even t"
proof (cases "t = of_int \<lfloor>t\<rfloor>")
  case True
  then have "- t = of_int (- \<lfloor>t\<rfloor>)" by simp
  then have "round_even (- t) = - \<lfloor>t\<rfloor>" by (simp only: round_even_int)
  moreover from True have "round_even t = \<lfloor>t\<rfloor>" by (metis round_even_int)
  ultimately show ?thesis by simp
next
  case False
  then have f: "\<lfloor>- t\<rfloor> = - \<lfloor>t\<rfloor> - 1"
    using False by (simp add: floor_minus ceiling_altdef)
  have fr: "- t - of_int \<lfloor>- t\<rfloor> = 1 - (t - of_int \<lfloor>t\<rfloor>)" by (simp add: f)
  have ev: "even (- \<lfloor>t\<rfloor> - 1) \<longleftrightarrow> odd \<lfloor>t\<rfloor>" by simp
  show ?thesis
    unfolding round_even_def fr unfolding f ev
    by auto
qed

lemma quantum_pos [simp]: "0 < quantum x"
  by (simp add: quantum_def)

lemma quantum_nonzero [simp]: "quantum x \<noteq> 0"
  by (simp add: quantum_def)

lemma quantum_nonneg [simp]: "0 \<le> quantum x"
  by (simp add: quantum_def)

lemma quantum_minus [simp]: "quantum (- x) = quantum x"
  by (simp add: quantum_def)

lemma rnd_minus: "rnd (- x) = - rnd x"
  by (simp add: rnd_def round_even_minus)

lemma rnd_0 [simp]: "rnd 0 = 0"
  by (simp add: rnd_def)

lemma rnd_error: "\<bar>rnd x - x\<bar> \<le> quantum x / 2"
proof -
  have "quantum x \<noteq> 0" by (simp add: quantum_def)
  then have "rnd x - x = (of_int (round_even (x / quantum x)) - x / quantum x) * quantum x"
    by (simp add: rnd_def algebra_simps)
  moreover have "\<bar>quantum x\<bar> = quantum x" using quantum_pos[of x] by linarith
  ultimately have "\<bar>rnd x - x\<bar> = \<bar>of_int (round_even (x / quantum x)) - x / quantum x\<bar> * quantum x"
    by (simp add: abs_mult)
  also have "\<dots> \<le> 1 / 2 * quantum x"
    by (intro mult_right_mono round_even_error) simp
  finally show ?thesis by simp
qed

lemma quantum_ulp_exp: "quantum x = 2 powr of_int (ulp_exp x)"
  by (simp add: quantum_def ulp_exp_def)

lemma ulp_exp_ge: "- 1074 \<le> ulp_exp x"
  by (simp add: ulp_exp_def)

lemma powr_int_multiple:
  assumes "e \<le> a"
  shows "(2::real) powr of_int a = of_int (2 ^ nat (a - e)) * 2 powr of_int e"
proof -
  have "real_of_int a = real (nat (a - e)) + of_int e" using assms by simp
  then have "(2::real) powr of_int a = 2 powr real (nat (a - e)) * 2 powr of_int e"
    by (simp only: powr_add)
  also have "(2::real) powr real (nat (a - e)) = 2 ^ nat (a - e)"
    by (simp add: powr_realpow)
  finally show ?thesis by simp
qed

lemma floor_log_bounds:
  assumes "x \<noteq> 0"
  shows "2 powr of_int \<lfloor>log 2 \<bar>x\<bar>\<rfloor> \<le> \<bar>x\<bar>" and "\<bar>x\<bar> < 2 powr of_int (\<lfloor>log 2 \<bar>x\<bar>\<rfloor> + 1)"
proof -
  have "0 < \<bar>x\<bar>" using assms by simp
  then have "2 powr of_int \<lfloor>log 2 \<bar>x\<bar>\<rfloor> \<le> \<bar>x\<bar> \<and> \<bar>x\<bar> < 2 powr of_int (\<lfloor>log 2 \<bar>x\<bar>\<rfloor> + 1)"
    using floor_log_eq_powr_iff[of "\<bar>x\<bar>" 2 "\<lfloor>log 2 \<bar>x\<bar>\<rfloor>"] by simp
  then show "2 powr of_int \<lfloor>log 2 \<bar>x\<bar>\<rfloor> \<le> \<bar>x\<bar>" and "\<bar>x\<bar> < 2 powr of_int (\<lfloor>log 2 \<bar>x\<bar>\<rfloor> + 1)"
    by simp_all
qed

lemma floor_log_le:
  assumes "x \<noteq> 0" and "\<bar>x\<bar> < 2 powr of_int k"
  shows "\<lfloor>log 2 \<bar>x\<bar>\<rfloor> < k"
proof -
  have "(2::real) powr of_int \<lfloor>log 2 \<bar>x\<bar>\<rfloor> < 2 powr of_int k"
    using floor_log_bounds(1)[OF assms(1)] assms(2) by linarith
  then show ?thesis by simp
qed

lemma floor_log_ge:
  assumes "2 powr of_int k \<le> \<bar>x\<bar>"
  shows "k \<le> \<lfloor>log 2 \<bar>x\<bar>\<rfloor>"
proof -
  have pos: "0 < \<bar>x\<bar>" using assms powr_gt_zero[of 2 "of_int k"] by linarith
  then have "x \<noteq> 0" by auto
  then have "(2::real) powr of_int k < 2 powr of_int (\<lfloor>log 2 \<bar>x\<bar>\<rfloor> + 1)"
    using floor_log_bounds(2)[of x] assms by linarith
  then have "k < \<lfloor>log 2 \<bar>x\<bar>\<rfloor> + 1" by simp
  then show ?thesis by simp
qed

text \<open>The scaled magnitude is below \<open>2^53\<close>.\<close>

lemma scaled_less:
  assumes "x \<noteq> 0"
  shows "\<bar>x\<bar> / quantum x < 2 ^ 53"
proof -
  have "\<lfloor>log 2 \<bar>x\<bar>\<rfloor> + 1 \<le> ulp_exp x + 53" by (simp add: ulp_exp_def)
  then have "(2::real) powr of_int (\<lfloor>log 2 \<bar>x\<bar>\<rfloor> + 1) \<le> 2 powr of_int (ulp_exp x + 53)"
    by (simp only: powr_le_cancel_iff of_int_le_iff)
  with floor_log_bounds(2)[OF assms] have "\<bar>x\<bar> < 2 powr of_int (ulp_exp x + 53)"
    by linarith
  also have "\<dots> = 2 powr of_int (ulp_exp x) * 2 ^ 53"
    by (simp add: powr_add)
  finally show ?thesis
    by (simp add: quantum_ulp_exp pos_divide_less_eq mult.commute)
qed

text \<open>A double is an integer multiple of its own quantum.\<close>

lemma double_canonical:
  assumes "double x"
  shows "\<exists>K. x = of_int K * quantum x \<and> \<bar>K\<bar> < 2 ^ 53"
proof (cases "x = 0")
  case True
  then show ?thesis by (intro exI[of _ 0]) simp
next
  case False
  from assms obtain m e where x: "x = of_int m * 2 powr of_int e" and m: "\<bar>m\<bar> < 2 ^ 53"
    and e: "- 1074 \<le> e"
    unfolding double_def by blast
  have "\<bar>x\<bar> = of_int \<bar>m\<bar> * 2 powr of_int e" by (simp add: x abs_mult)
  also have "\<dots> < 2 ^ 53 * 2 powr of_int e"
  proof -
    have "of_int \<bar>m\<bar> < (2::real) ^ 53" using m by (metis of_int_less_iff of_int_numeral of_int_power)
    then show ?thesis by (intro mult_strict_right_mono) simp_all
  qed
  also have "\<dots> = 2 powr of_int (e + 53)" by (simp add: powr_add)
  finally have "\<lfloor>log 2 \<bar>x\<bar>\<rfloor> < e + 53" using floor_log_le[OF False] by blast
  with e have le: "ulp_exp x \<le> e" by (simp add: ulp_exp_def)
  have "x = of_int m * (of_int (2 ^ nat (e - ulp_exp x)) * 2 powr of_int (ulp_exp x))"
    using x powr_int_multiple[OF le] by simp
  then have "x = of_int (m * 2 ^ nat (e - ulp_exp x)) * quantum x"
    by (simp add: quantum_ulp_exp)
  moreover have "\<bar>of_int (m * 2 ^ nat (e - ulp_exp x)) :: real\<bar> < 2 ^ 53"
  proof -
    have "\<bar>of_int (m * 2 ^ nat (e - ulp_exp x)) :: real\<bar> = \<bar>x\<bar> / quantum x"
      using calculation by (metis abs_mult abs_of_pos nonzero_mult_div_cancel_right quantum_nonzero quantum_pos)
    then show ?thesis using scaled_less[OF False] by simp
  qed
  then have "\<bar>m * 2 ^ nat (e - ulp_exp x)\<bar> < 2 ^ 53"
    by (metis of_int_abs of_int_less_iff of_int_numeral of_int_power)
  ultimately show ?thesis by blast
qed

lemma rnd_double: "double x \<Longrightarrow> rnd x = x"
proof -
  assume "double x"
  then obtain K where "x = of_int K * quantum x" by (auto dest: double_canonical)
  then have "x / quantum x = of_int K" by (metis nonzero_mult_div_cancel_right quantum_nonzero)
  then have "rnd x = of_int K * quantum x" by (simp add: rnd_def)
  with \<open>x = of_int K * quantum x\<close> show ?thesis by simp
qed

lemma rnd_le_multiple: "x \<le> of_int k * quantum x \<Longrightarrow> rnd x \<le> of_int k * quantum x"
proof -
  assume "x \<le> of_int k * quantum x"
  then have "x / quantum x \<le> of_int k" by (simp add: pos_divide_le_eq)
  then have "round_even (x / quantum x) \<le> k" by (rule round_even_le_int)
  then have "real_of_int (round_even (x / quantum x)) \<le> of_int k" by simp
  then show ?thesis unfolding rnd_def by (intro mult_right_mono) simp_all
qed

lemma rnd_ge_multiple: "of_int k * quantum x \<le> x \<Longrightarrow> of_int k * quantum x \<le> rnd x"
proof -
  assume "of_int k * quantum x \<le> x"
  then have "of_int k \<le> x / quantum x" by (simp add: pos_le_divide_eq)
  then have "k \<le> round_even (x / quantum x)" by (rule round_even_ge_int)
  then have "real_of_int k \<le> of_int (round_even (x / quantum x))" by simp
  then show ?thesis unfolding rnd_def by (intro mult_right_mono) simp_all
qed

lemma rnd_nonneg: "0 \<le> x \<Longrightarrow> 0 \<le> rnd x"
  using rnd_ge_multiple[of 0 x] by simp

lemma rnd_nonpos: "x \<le> 0 \<Longrightarrow> rnd x \<le> 0"
  using rnd_le_multiple[of x 0] by simp

lemma rnd_is_double: "double (rnd x)"
proof (cases "x = 0")
  case True
  have "(0::real) = of_int 0 * 2 powr of_int 0" by simp
  then have "double 0" unfolding double_def by (intro exI[of _ 0]) simp
  with True show ?thesis by simp
next
  case False
  define M where "M = round_even (x / quantum x)"
  have r: "rnd x = of_int M * 2 powr of_int (ulp_exp x)"
    by (simp add: rnd_def M_def quantum_ulp_exp)
  have "\<bar>x / quantum x\<bar> = \<bar>x\<bar> / quantum x"
    by (simp add: abs_divide abs_of_pos)
  with scaled_less[OF False] have b: "\<bar>x / quantum x\<bar> < 2 ^ 53"
    by (simp only:)
  have c: "real_of_int (2 ^ 53) = 2 ^ 53" "real_of_int (- (2 ^ 53)) = - (2 ^ 53)" by simp_all
  from b have "x / quantum x \<le> of_int (2 ^ 53)" "of_int (- (2 ^ 53)) \<le> x / quantum x"
    unfolding c by linarith+
  then have "M \<le> 2 ^ 53" "- (2 ^ 53) \<le> M"
    unfolding M_def by (simp_all only: round_even_le_int round_even_ge_int)
  then consider "\<bar>M\<bar> < 2 ^ 53" | "M = 2 ^ 53" | "M = - (2 ^ 53)" by linarith
  then show ?thesis
  proof cases
    case 1
    with r ulp_exp_ge[of x] show ?thesis unfolding double_def by blast
  next
    case 2
    have "rnd x = of_int (2 ^ 52) * 2 powr of_int (ulp_exp x + 1)"
      by (simp add: r 2 powr_add)
    moreover have "\<bar>2 ^ 52 :: int\<bar> < 2 ^ 53" by simp
    moreover have "- 1074 \<le> ulp_exp x + 1" using ulp_exp_ge[of x] by simp
    ultimately show ?thesis unfolding double_def by blast
  next
    case 3
    have "rnd x = of_int (- (2 ^ 52)) * 2 powr of_int (ulp_exp x + 1)"
      by (simp add: r 3 powr_add)
    moreover have "\<bar>- (2 ^ 52) :: int\<bar> < 2 ^ 53" by simp
    moreover have "- 1074 \<le> ulp_exp x + 1" using ulp_exp_ge[of x] by simp
    ultimately show ?thesis unfolding double_def by blast
  qed
qed

lemma ulp_exp_mono:
  assumes "0 < x" and "x \<le> y"
  shows "ulp_exp x \<le> ulp_exp y"
proof -
  have "log 2 \<bar>x\<bar> \<le> log 2 \<bar>y\<bar>" using assms by simp
  then have "\<lfloor>log 2 \<bar>x\<bar>\<rfloor> \<le> \<lfloor>log 2 \<bar>y\<bar>\<rfloor>" by (rule floor_mono)
  then show ?thesis by (simp add: ulp_exp_def)
qed

lemma rnd_mono_pos:
  assumes "0 < x" and "x \<le> y"
  shows "rnd x \<le> rnd y"
proof (cases "ulp_exp x = ulp_exp y")
  case True
  then have q: "quantum x = quantum y" by (simp add: quantum_ulp_exp)
  have "x / quantum y \<le> y / quantum y"
    using assms(2) by (simp add: divide_right_mono)
  then have "real_of_int (round_even (x / quantum y)) \<le> of_int (round_even (y / quantum y))"
    using round_even_mono by simp
  then show ?thesis unfolding rnd_def q by (intro mult_right_mono) simp_all
next
  case False
  with ulp_exp_mono[OF assms] have lt: "ulp_exp x < ulp_exp y" by simp
  define E where "E = \<lfloor>log 2 \<bar>y\<bar>\<rfloor>"
  have ynz: "y \<noteq> 0" and xnz: "x \<noteq> 0" using assms by auto
  from lt have ey: "ulp_exp y = E - 52"
    using ulp_exp_ge[of x] unfolding ulp_exp_def E_def by linarith
  have ex: "ulp_exp x \<le> E" using lt ey by simp
  have "\<lfloor>log 2 \<bar>x\<bar>\<rfloor> - 52 \<le> ulp_exp x" by (simp add: ulp_exp_def)
  with lt ey have "\<lfloor>log 2 \<bar>x\<bar>\<rfloor> + 1 \<le> E" by simp
  then have "(2::real) powr of_int (\<lfloor>log 2 \<bar>x\<bar>\<rfloor> + 1) \<le> 2 powr of_int E"
    by (simp only: powr_le_cancel_iff of_int_le_iff)
  with floor_log_bounds(2)[OF xnz] assms(1) have xE: "x \<le> 2 powr of_int E" by linarith
  have yE: "2 powr of_int E \<le> y"
    using floor_log_bounds(1)[OF ynz] assms by (simp add: E_def)
  have "2 powr of_int E = of_int (2 ^ nat (E - ulp_exp x)) * quantum x"
    unfolding quantum_ulp_exp by (rule powr_int_multiple[OF ex])
  with xE have "rnd x \<le> 2 powr of_int E"
    using rnd_le_multiple[of x "2 ^ nat (E - ulp_exp x)"] by simp
  moreover have "ulp_exp y \<le> E" using ey by simp
  then have "2 powr of_int E = of_int (2 ^ nat (E - ulp_exp y)) * quantum y"
    unfolding quantum_ulp_exp by (rule powr_int_multiple)
  with yE have "2 powr of_int E \<le> rnd y"
    using rnd_ge_multiple[of "2 ^ nat (E - ulp_exp y)" y] by simp
  ultimately show ?thesis by linarith
qed

lemma rnd_mono: "x \<le> y \<Longrightarrow> rnd x \<le> rnd y"
proof -
  assume xy: "x \<le> y"
  consider "0 < x" | "x \<le> 0" "0 \<le> y" | "y < 0" by linarith
  then show ?thesis
  proof cases
    case 1
    then show ?thesis using xy by (rule rnd_mono_pos)
  next
    case 2
    then show ?thesis using rnd_nonpos[of x] rnd_nonneg[of y] by linarith
  next
    case 3
    then have "0 < - y" "- y \<le> - x" using xy by simp_all
    then have "rnd (- y) \<le> rnd (- x)" by (rule rnd_mono_pos)
    then show ?thesis by (simp add: rnd_minus)
  qed
qed

lemma quantum_normal:
  assumes "2 powr (- 1022) \<le> \<bar>x\<bar>"
  shows "quantum x \<le> 2 powr (- 52) * \<bar>x\<bar>"
proof -
  have "(2::real) powr of_int (- 1022) \<le> \<bar>x\<bar>" using assms by simp
  then have E: "- 1022 \<le> \<lfloor>log 2 \<bar>x\<bar>\<rfloor>" by (rule floor_log_ge)
  then have "ulp_exp x = \<lfloor>log 2 \<bar>x\<bar>\<rfloor> - 52" unfolding ulp_exp_def by linarith
  then have "real_of_int (ulp_exp x) = - 52 + of_int \<lfloor>log 2 \<bar>x\<bar>\<rfloor>" by simp
  then have "quantum x = 2 powr (- 52) * 2 powr of_int \<lfloor>log 2 \<bar>x\<bar>\<rfloor>"
    unfolding quantum_ulp_exp by (simp only: powr_add)
  moreover have "x \<noteq> 0" using assms powr_gt_zero[of 2 "- 1022"] by auto
  ultimately show ?thesis
    using floor_log_bounds(1)[of x] by simp
qed

lemma rnd_relative:
  assumes "2 powr (- 1022) \<le> \<bar>x\<bar>"
  shows "\<bar>rnd x - x\<bar> \<le> 2 powr (- 53) * \<bar>x\<bar>"
proof -
  have "\<bar>rnd x - x\<bar> \<le> quantum x / 2" by (rule rnd_error)
  also have "\<dots> \<le> 2 powr (- 52) * \<bar>x\<bar> / 2"
    using quantum_normal[OF assms] by simp
  also have "\<dots> = 2 powr (- 53) * \<bar>x\<bar>"
  proof -
    have "(2::real) powr (- 53) = 2 powr (- 52) / 2"
      by (simp add: powr_minus field_simps)
    then show ?thesis by simp
  qed
  finally show ?thesis .
qed

lemma double_pred:
  assumes "double h" and "2 powr (- 1022) \<le> h"
  shows "\<exists>p. double p \<and> p < h \<and> h - p \<le> 2 powr (- 52) * h"
proof -
  have hpos: "0 < h" using assms(2) powr_gt_zero[of 2 "- 1022"] by linarith
  from double_canonical[OF assms(1)] obtain K where K: "h = of_int K * quantum h"
    and Kb: "\<bar>K\<bar> < 2 ^ 53"
    by blast
  have Kpos: "0 < K"
  proof (rule ccontr)
    assume "\<not> 0 < K"
    then have "real_of_int K \<le> 0" by simp
    then have "of_int K * quantum h \<le> 0" by (simp add: mult_le_0_iff)
    with K hpos show False by linarith
  qed
  define p where "p = of_int (K - 1) * quantum h"
  have "p = of_int (K - 1) * 2 powr of_int (ulp_exp h)" by (simp add: p_def quantum_ulp_exp)
  moreover have "\<bar>K - 1\<bar> < 2 ^ 53" using Kb Kpos by simp
  ultimately have "double p" unfolding double_def using ulp_exp_ge[of h] by blast
  moreover have hp: "h - p = quantum h"
    by (subst (1) K) (simp add: p_def algebra_simps)
  then have "p < h" using quantum_pos[of h] by linarith
  moreover have "h - p \<le> 2 powr (- 52) * h"
    using quantum_normal[of h] assms(2) hpos hp by simp
  ultimately show ?thesis by blast
qed

lemma interior_bounds_real:
  fixes h d s0 step k t y :: real
  assumes h: "0 < h" and d2: "2 \<le> d" and d50: "d \<le> 2 ^ 50" and s0: "s0 = 2 * h / d"
    and step: "\<bar>step - s0\<bar> \<le> s0 / 2 ^ 53"
    and k1: "1 \<le> k" and kd: "k \<le> d - 1" and t: "t = k * step"
    and y: "\<bar>y - t\<bar> \<le> t / 2 ^ 53" and sy: "step \<le> y"
  shows "h / 2 ^ 52 \<le> y" and "y \<le> 2 * h - h / 2 ^ 52"
proof -
  have dpos: "0 < d" using d2 by simp
  have s0pos: "0 < s0" using h dpos by (simp add: s0)
  have "step - s0 \<le> s0 / 2 ^ 53" "- (step - s0) \<le> s0 / 2 ^ 53"
    using step unfolding abs_le_iff by blast+
  then have s_lo: "s0 * (1 - 1 / 2 ^ 53) \<le> step" and s_hi: "step \<le> s0 * (1 + 1 / 2 ^ 53)"
    by (simp_all add: algebra_simps)
  have steppos: "0 < step"
  proof -
    have "0 < s0 * (1 - 1 / 2 ^ 53)" using s0pos by simp
    with s_lo show ?thesis by linarith
  qed
  have "2 * h / 2 ^ 50 \<le> s0"
    unfolding s0 using h d50 dpos by (intro divide_left_mono) simp_all
  then have "2 * h / 2 ^ 50 * (1 - 1 / 2 ^ 53) \<le> s0 * (1 - 1 / 2 ^ 53)"
    by (intro mult_right_mono) simp_all
  moreover have "h / 2 ^ 52 \<le> 2 * h / 2 ^ 50 * (1 - 1 / 2 ^ 53)"
    using h by simp
  ultimately show "h / 2 ^ 52 \<le> y" using s_lo sy by linarith
  have tpos: "0 < t" using k1 steppos by (simp add: t)
  have "y - t \<le> t / 2 ^ 53" using y unfolding abs_le_iff by blast
  then have "y \<le> t * (1 + 1 / 2 ^ 53)" by (simp add: algebra_simps)
  also have "t \<le> (d - 1) * step" unfolding t using kd steppos by (intro mult_right_mono) simp_all
  then have "t * (1 + 1 / 2 ^ 53) \<le> (d - 1) * step * (1 + 1 / 2 ^ 53)"
    by (intro mult_right_mono) simp_all
  also have "(d - 1) * step \<le> (d - 1) * (s0 * (1 + 1 / 2 ^ 53))"
    using s_hi d2 by (intro mult_left_mono) simp_all
  then have "(d - 1) * step * (1 + 1 / 2 ^ 53) \<le> (d - 1) * (s0 * (1 + 1 / 2 ^ 53)) * (1 + 1 / 2 ^ 53)"
    by (intro mult_right_mono) simp_all
  also have "(d - 1) * (s0 * (1 + 1 / 2 ^ 53)) * (1 + 1 / 2 ^ 53)
      = 2 * h * (1 - 1 / d) * ((1 + 1 / 2 ^ 53) * (1 + 1 / 2 ^ 53))"
    using dpos by (simp add: s0 field_simps)
  also have "\<dots> \<le> 2 * h * (1 - 1 / 2 ^ 50) * ((1 + 1 / 2 ^ 53) * (1 + 1 / 2 ^ 53))"
  proof -
    have "1 / 2 ^ 50 \<le> 1 / d" using d50 dpos by (intro divide_left_mono) simp_all
    then have "1 - 1 / d \<le> 1 - 1 / 2 ^ 50" by simp
    then have "2 * h * (1 - 1 / d) \<le> 2 * h * (1 - 1 / 2 ^ 50)"
      using h by (intro mult_left_mono) simp_all
    then show ?thesis by (intro mult_right_mono) simp_all
  qed
  also have "\<dots> = 2 * h * ((1 - 1 / 2 ^ 50) * ((1 + 1 / 2 ^ 53) * (1 + 1 / 2 ^ 53)))"
    by simp
  also have "\<dots> \<le> 2 * h * (1 - 1 / 2 ^ 53)"
  proof -
    have "(1 - 1 / 2 ^ 50) * ((1 + 1 / 2 ^ 53) * (1 + 1 / 2 ^ 53)) \<le> (1 - 1 / 2 ^ 53 :: real)"
      by simp
    then show ?thesis using h by (intro mult_left_mono) simp_all
  qed
  also have "\<dots> = 2 * h - h / 2 ^ 52" by (simp add: algebra_simps)
  finally show "y \<le> 2 * h - h / 2 ^ 52" .
qed

subsection \<open>Doubles\<close>

lemma powr_neg_num: "(2::real) powr (- numeral k) = 1 / 2 ^ numeral k"
  by (simp add: powr_neg_numeral)

lemma double_of_int: "\<bar>m\<bar> < 2 ^ 53 \<Longrightarrow> double (of_int m)"
  unfolding double_def by (intro exI[of _ m] exI[of _ 0]) simp

lemma rnd_of_int: "\<bar>m\<bar> < 2 ^ 53 \<Longrightarrow> rnd (of_int m) = of_int m"
  by (rule rnd_double[OF double_of_int])

lemma rnd_of_nat: "n < 2 ^ 53 \<Longrightarrow> rnd (real n) = real n"
  using rnd_of_int[of "int n"] by simp

lemma double_dyadic: "\<bar>m\<bar> < 2 ^ 53 \<Longrightarrow> k \<le> 1074 \<Longrightarrow> double (of_int m / 2 ^ k)"
proof -
  assume m: "\<bar>m\<bar> < 2 ^ 53" and k: "k \<le> 1074"
  have "(2::real) powr of_int (- int k) = 1 / 2 ^ k"
    by (simp add: powr_minus_divide powr_realpow)
  then have "(of_int m / 2 ^ k :: real) = of_int m * 2 powr of_int (- int k)" by simp
  moreover have "- 1074 \<le> - int k" using k by simp
  ultimately show ?thesis unfolding double_def using m by blast
qed

lemma rnd_dyadic: "\<bar>m\<bar> < 2 ^ 53 \<Longrightarrow> k \<le> 1074 \<Longrightarrow> rnd (of_int m / 2 ^ k) = of_int m / 2 ^ k"
  by (rule rnd_double[OF double_dyadic])

lemma rnd_idem [simp]: "rnd (rnd x) = rnd x"
  by (rule rnd_double[OF rnd_is_double])

lemma double_twice: "double x \<Longrightarrow> double (2 * x)"
proof -
  assume "double x"
  then obtain m e where x: "x = of_int m * 2 powr of_int e" and m: "\<bar>m\<bar> < 2 ^ 53"
    and e: "- 1074 \<le> e"
    unfolding double_def by blast
  have "(2::real) powr of_int (e + 1) = 2 * 2 powr of_int e" by (simp add: powr_add)
  then have "2 * x = of_int m * 2 powr of_int (e + 1)" using x by simp
  moreover have "- 1074 \<le> e + 1" using e by simp
  ultimately show ?thesis unfolding double_def using m by blast
qed

lemma double_minus: "double x \<Longrightarrow> double (- x)"
proof -
  assume "double x"
  then obtain m e where x: "x = of_int m * 2 powr of_int e" and m: "\<bar>m\<bar> < 2 ^ 53"
    and e: "- 1074 \<le> e"
    unfolding double_def by blast
  have "- x = of_int (- m) * 2 powr of_int e" using x by simp
  moreover have "\<bar>- m\<bar> < 2 ^ 53" using m by simp
  ultimately show ?thesis unfolding double_def using e by blast
qed

lemma rnd_1 [simp]: "rnd 1 = 1"
  using rnd_of_int[of 1] by simp

lemma rnd_2 [simp]: "rnd 2 = 2"
  using rnd_of_int[of 2] by simp

lemma rnd_half [simp]: "rnd (1 / 2) = 1 / 2"
  using rnd_dyadic[of 1 1] by simp

lemma quantum_subnormal:
  assumes "x \<noteq> 0" and "\<bar>x\<bar> < 2 powr (- 1021)"
  shows "quantum x = 2 powr (- 1074)"
proof -
  have "\<bar>x\<bar> < 2 powr of_int (- 1021)" using assms(2) by simp
  then have "\<lfloor>log 2 \<bar>x\<bar>\<rfloor> < - 1021" by (rule floor_log_le[OF assms(1)])
  then have "\<lfloor>log 2 \<bar>x\<bar>\<rfloor> - 52 \<le> - 1074" by linarith
  then have "max (\<lfloor>log 2 \<bar>x\<bar>\<rfloor> - 52) (- 1074) = - 1074" by (rule max_absorb2)
  then show ?thesis by (simp only: quantum_def) simp
qed

lemma rnd_half_quantum: "rnd (1 / 2 ^ 1075) = 0"
proof -
  have lt: "\<bar>1 / 2 ^ 1075 :: real\<bar> < 2 powr (- 1021)"
    unfolding powr_neg_num by (simp add: field_simps)
  have q: "quantum (1 / 2 ^ 1075) = 1 / 2 ^ 1074"
    using quantum_subnormal[OF _ lt] unfolding powr_neg_num by simp
  have d: "(1 / 2 ^ 1075 :: real) / quantum (1 / 2 ^ 1075) = 1 / 2"
    unfolding q by simp
  have "round_even (1 / 2) = 0" by (simp add: round_even_def)
  then show ?thesis unfolding rnd_def d by simp
qed

subsection \<open>The grid and the test of line 97\<close>

lemma linspace_ok:
  "linspace (rnd (- L / 2)) (rnd (L / 2)) (int n) = Inr (map (grid_point n L) [0..<n])"
  by (simp add: linspace_def grid_point_def)


lemma grid_ok:
  "\<not> overflows (L / 2) \<Longrightarrow>
   grid (int n) L = Inr (map (\<lambda>i. replicate n (grid_point n L i)) [0..<n],
                         replicate n (map (grid_point n L) [0..<n]))"
  unfolding grid_def linspace_ok by (simp add: meshgrid_ij_def)

lemma grid_overflow: "overflows (L / 2) \<Longrightarrow> grid N L = Inl OverflowError"
  by (simp add: grid_def)

lemma start_minus: "rnd (- L / 2) = - rnd (L / 2)"
  using rnd_minus[of "L / 2"] by simp

lemma grid_point_first: "grid_point n L 0 = - rnd (L / 2)"
  by (simp add: grid_point_def linspace_entry_def start_minus rnd_minus)

lemma grid_point_last: "1 < n \<Longrightarrow> grid_point n L (n - 1) = rnd (L / 2)"
  by (simp add: grid_point_def linspace_entry_def of_nat_diff)

lemma frame_fails:
  assumes "i < n" and "\<bar>grid_point n L i\<bar> < rnd (L / 2)"
  shows "0 < i \<and> Suc i < n"
proof -
  have "i \<noteq> 0"
  proof
    assume "i = 0"
    with assms(2) have "\<bar>- rnd (L / 2)\<bar> < rnd (L / 2)" by (simp add: grid_point_first)
    then show False by linarith
  qed
  moreover have "Suc i \<noteq> n"
  proof
    assume e: "Suc i = n"
    with \<open>i \<noteq> 0\<close> have "1 < n" "n - 1 = i" by auto
    with assms(2) grid_point_last[of n L] show False by simp
  qed
  ultimately show ?thesis using assms(1) by auto
qed

lemma inside_pt_interior:
  "i < n \<Longrightarrow> j < n \<Longrightarrow> inside_pt n L i j \<Longrightarrow> interior n i j"
  using frame_fails[of i n L] frame_fails[of j n L]
  by (auto simp: inside_pt_def interior_def)

lemma interior_passes:
  assumes n: "n \<le> 2 ^ 50" and L1: "1 / 2 ^ 970 \<le> L" and L2: "L \<le> 2 ^ 1023"
    and i0: "0 < i" and i1: "Suc i < n"
  shows "\<bar>grid_point n L i\<bar> < rnd (L / 2)"
proof -
  define h where "h = rnd (L / 2)"
  have dh: "double h" by (simp add: h_def rnd_is_double)
  have hlow: "1 / 2 ^ 971 \<le> h"
  proof -
    have e: "(1 / 2 ^ 970 / 2 :: real) = 1 / 2 ^ 971" by simp
    have "1 / 2 ^ 970 / 2 \<le> L / 2" using L1 by (rule divide_right_mono) simp
    then have "1 / 2 ^ 971 \<le> L / 2" by (simp only: e)
    then have "rnd (1 / 2 ^ 971) \<le> rnd (L / 2)" by (rule rnd_mono)
    moreover have "rnd (1 / 2 ^ 971) = 1 / 2 ^ 971" using rnd_dyadic[of 1 971] by simp
    ultimately show ?thesis by (simp only: h_def)
  qed
  have hpos: "0 < h"
  proof -
    have "(0::real) < 1 / 2 ^ 971" by simp
    with hlow show ?thesis by linarith
  qed
  have hnorm: "2 powr (- 1022) \<le> h"
  proof -
    have "(1 / 2 ^ 1022 :: real) \<le> 1 / 2 ^ 971"
      by (intro divide_left_mono power_increasing) simp_all
    with hlow show ?thesis unfolding powr_neg_num by linarith
  qed
  have start: "rnd (- L / 2) = - h" by (simp only: h_def start_minus)
  have delta: "rnd (h - (- h)) = 2 * h"
    using rnd_double[OF double_twice[OF dh]] by simp
  define d where "d = real n - 1"
  have n3: "3 \<le> n" using i0 i1 by linarith
  have nr: "real n \<le> 2 ^ 50" using n by (metis of_nat_le_iff of_nat_numeral of_nat_power)
  have d2: "2 \<le> d" using n3 by (simp add: d_def)
  have d50: "d \<le> 2 ^ 50" using nr by (simp add: d_def)
  have div: "rnd (of_int (int n - 1)) = d"
  proof -
    have "int n - 1 < 2 ^ 53"
    proof -
      have "(2::nat) ^ 50 \<le> 2 ^ 53" by (intro power_increasing) simp_all
      with n have "n \<le> 2 ^ 53" by linarith
      then have "int n \<le> 2 ^ 53" by (metis of_nat_le_iff of_nat_numeral of_nat_power)
      then show ?thesis by linarith
    qed
    moreover have "0 \<le> int n - 1" using n3 by linarith
    ultimately have "\<bar>int n - 1\<bar> < 2 ^ 53" by linarith
    then have "rnd (of_int (int n - 1)) = of_int (int n - 1)" by (rule rnd_of_int)
    then show ?thesis by (simp add: d_def)
  qed
  define s0 where "s0 = 2 * h / d"
  define step where "step = rnd s0"
  have dpos: "0 < d" using d2 by linarith
  have s0pos: "0 < s0" using hpos dpos by (simp add: s0_def)
  have s0low: "1 / 2 ^ 1020 \<le> s0"
  proof -
    have "(1 / 2 ^ 1020 :: real) * d \<le> 1 / 2 ^ 1020 * 2 ^ 50"
      using d50 by (intro mult_left_mono) simp_all
    also have "\<dots> = 2 * (1 / 2 ^ 971)" by simp
    also have "\<dots> \<le> 2 * h" using hlow by linarith
    finally show ?thesis using dpos by (simp add: s0_def pos_le_divide_eq)
  qed
  have s0norm: "2 powr (- 1022) \<le> \<bar>s0\<bar>"
  proof -
    have "(1 / 2 ^ 1022 :: real) \<le> 1 / 2 ^ 1020"
      by (intro divide_left_mono power_increasing) simp_all
    with s0low s0pos show ?thesis unfolding powr_neg_num by linarith
  qed
  have steprel: "\<bar>step - s0\<bar> \<le> s0 / 2 ^ 53"
    using rnd_relative[OF s0norm] s0pos unfolding powr_neg_num step_def by simp
  have stephalf: "s0 / 2 \<le> step"
  proof -
    have a: "s0 - step \<le> s0 / 2 ^ 53" using steprel unfolding abs_le_iff by linarith
    have "s0 / 2 ^ 53 \<le> s0 / 2" using s0pos by (simp add: field_simps)
    with a show ?thesis by linarith
  qed
  have steppos: "0 < step" using stephalf s0pos by linarith
  have dstep: "rnd step = step" by (simp add: step_def)
  have ri: "rnd (real i) = real i"
  proof -
    have "(2::nat) ^ 50 < 2 ^ 53" by (intro power_strict_increasing) simp_all
    with n i1 have "i < 2 ^ 53" by linarith
    then show ?thesis by (rule rnd_of_nat)
  qed
  define t where "t = real i * step"
  define y where "y = rnd t"
  have k1: "1 \<le> real i" using i0 by simp
  have k2: "real i \<le> d - 1" using i1 by (simp add: d_def)
  have stept: "step \<le> t"
  proof -
    have "1 * step \<le> real i * step" using k1 steppos by (intro mult_right_mono) simp_all
    then show ?thesis by (simp add: t_def)
  qed
  have tpos: "0 < t" using stept steppos by linarith
  have tnorm: "2 powr (- 1022) \<le> \<bar>t\<bar>"
  proof -
    have gen: "a \<le> s0 \<Longrightarrow> c \<le> a / 2 \<Longrightarrow> c \<le> \<bar>t\<bar>" for a c :: real
      using stephalf stept tpos by linarith
    have "(1 / 2 ^ 1022 :: real) \<le> 1 / 2 ^ 1020 / 2" by simp
    with s0low show ?thesis unfolding powr_neg_num by (rule gen)
  qed
  have yrel: "\<bar>y - t\<bar> \<le> t / 2 ^ 53"
    using rnd_relative[OF tnorm] tpos unfolding powr_neg_num y_def by simp
  have stepy: "step \<le> y"
    using rnd_mono[OF stept] by (simp only: dstep y_def)
  note b = interior_bounds_real[OF hpos d2 d50 s0_def steprel k1 k2 t_def yrel stepy]
  obtain p where p: "double p" "p < h" "h - p \<le> 2 powr (- 52) * h"
    using double_pred[OF dh hnorm] by blast
  have pl: "h - h / 2 ^ 52 \<le> p" using p(3) unfolding powr_neg_num by simp
  have up: "rnd (y + - h) \<le> p"
  proof -
    have "y + - h \<le> p" using b(2) pl by linarith
    then have "rnd (y + - h) \<le> rnd p" by (rule rnd_mono)
    then show ?thesis by (simp only: rnd_double[OF p(1)])
  qed
  have lo: "- p \<le> rnd (y + - h)"
  proof -
    have "- p \<le> y + - h" using b(1) pl by linarith
    then have "rnd (- p) \<le> rnd (y + - h)" by (rule rnd_mono)
    then show ?thesis by (simp only: rnd_double[OF double_minus[OF p(1)]])
  qed
  have cond: "\<not> (1 < int n \<and> int i = int n - 1)" "0 < int n - 1"
    using i1 by auto
  have stepne: "rnd (2 * h / d) \<noteq> 0" using steppos by (simp add: step_def s0_def)
  have "grid_point n L i = rnd (y + - h)"
    unfolding grid_point_def linspace_entry_def start h_def[symmetric] delta div
    using cond stepne
    by (simp add: ri y_def t_def step_def s0_def)
  with up lo p(2) show ?thesis unfolding h_def[symmetric] by linarith
qed

lemma inside_pt_iff:
  assumes "n \<le> 2 ^ 50" and "1 / 2 ^ 970 \<le> L" and "L \<le> 2 ^ 1023" and "i < n" and "j < n"
  shows "inside_pt n L i j \<longleftrightarrow> interior n i j"
proof
  assume "inside_pt n L i j"
  with assms(4,5) show "interior n i j" by (rule inside_pt_interior)
next
  assume a: "interior n i j"
  then have "0 < i" "Suc i < n" "0 < j" "Suc j < n" by (auto simp: interior_def)
  then show "inside_pt n L i j"
    unfolding inside_pt_def
    using interior_passes[OF assms(1-3), of i] interior_passes[OF assms(1-3), of j] by simp
qed

subsection \<open>The grids of the examples\<close>

lemma no_overflow_2: "\<not> overflows (2 / 2)" "\<not> overflows 2"
  by (simp_all add: overflows_def)



lemma grid_point_2_2: "grid_point 2 2 0 = - 1" "grid_point 2 2 (Suc 0) = 1"
  using grid_point_first[of 2 2] grid_point_last[of 2 2] by simp_all

lemma grid_point_3_2:
  "grid_point 3 2 0 = - 1" "grid_point 3 2 (Suc 0) = 0" "grid_point 3 2 2 = 1"
  "grid_point 3 2 (Suc (Suc 0)) = 1"
proof -
  show "grid_point 3 2 0 = - 1" using grid_point_first[of 3 2] by simp
  show "grid_point 3 2 2 = 1" using grid_point_last[of 3 2] by simp
  then show "grid_point 3 2 (Suc (Suc 0)) = 1" by (simp add: numeral_2_eq_2)
  show "grid_point 3 2 (Suc 0) = 0"
    by (simp add: grid_point_def linspace_entry_def rnd_minus)
qed



subsection \<open>Item assignment at indices in range\<close>

lemma norm_index_nat: "k < n \<Longrightarrow> norm_index (int k) n = Inr k"
  by (simp add: norm_index_def)

lemma shape1_update:
  "k < length A \<Longrightarrow> length R = length (A ! k) \<Longrightarrow> shape1 (A[k := R]) = shape1 A"
  by (cases A; cases k) (simp_all add: shape1_def)

lemma shape1_nth: "k < length A \<Longrightarrow> \<forall>r\<in>set A. length r = m \<Longrightarrow> shape1 A = m"
  by (cases A) (simp_all add: shape1_def)

lemma setitem2_nat:
  "r < length A \<Longrightarrow> c < shape1 A \<Longrightarrow>
   setitem2 A (int r, int c) v = Inr (A[r := (A ! r)[c := v]])"
  by (simp add: setitem2_def shape0_def norm_index_nat)

lemma setitem1_nat: "k < length B \<Longrightarrow> setitem1 B (int k) v = Inr (B[k := v])"
  by (simp add: setitem1_def norm_index_nat)

lemma length_fold_update: "length (fold (\<lambda>cv R. R[fst cv := snd cv]) cvs R) = length R"
  by (induction cvs arbitrary: R) simp_all

lemma foldE_setitem2_row:
  assumes "k < length A" and "\<forall>cv\<in>set cvs. fst cv < shape1 A"
  shows "foldE (\<lambda>cv A. setitem2 A (int k, fst cv) (snd cv))
               (map (\<lambda>cv. (int (fst cv), snd cv)) cvs) A =
         Inr (A[k := fold (\<lambda>cv R. R[fst cv := snd cv]) cvs (A ! k)])"
  using assms
proof (induction cvs arbitrary: A)
  case Nil
  then show ?case by simp
next
  case (Cons cv cvs)
  let ?A' = "A[k := (A ! k)[fst cv := snd cv]]"
  have s: "shape1 ?A' = shape1 A" using Cons.prems by (simp add: shape1_update)
  have "foldE (\<lambda>cv A. setitem2 A (int k, fst cv) (snd cv))
          (map (\<lambda>cv. (int (fst cv), snd cv)) cvs) ?A' =
        Inr (?A'[k := fold (\<lambda>cv R. R[fst cv := snd cv]) cvs (?A' ! k)])"
    using Cons.prems by (intro Cons.IH) (simp_all add: s)
  then show ?case using Cons.prems by (simp add: setitem2_nat)
qed

subsection \<open>One grid point\<close>

lemma stencil_nat:
  assumes "0 < i" and "0 < j"
  shows "stencil (int n) (int i) (int j) =
         map (\<lambda>cv. (int (fst cv), snd cv))
           [(i * n + j, - 4), ((i - 1) * n + j, 1), ((i + 1) * n + j, 1),
            (i * n + j + 1, 1), (i * n + j - 1, 1)]"
proof -
  from assms obtain i' j' where ij: "i = Suc i'" "j = Suc j'"
    by (cases i; cases j) auto
  show ?thesis unfolding ij stencil_def by (simp add: algebra_simps)
qed

lemma interior_bounds:
  assumes "interior n i j"
  shows "0 < i" "0 < j" "Suc i < n" "Suc j < n" "i * n + j < n * n"
    "(i - 1) * n + j < n * n" "(i + 1) * n + j < n * n" "i * n + j + 1 < n * n"
    "i * n + j - 1 < n * n"
proof -
  from assms show i: "0 < i" and j: "0 < j" and i': "Suc i < n" and j': "Suc j < n"
    by (auto simp: interior_def)
  have "(i + 1) * n + j < (i + 1) * n + n" using j' by simp
  also have "\<dots> = (i + 2) * n" by (simp add: algebra_simps)
  also have "\<dots> \<le> n * n" using i' by (intro mult_le_mono1) simp
  finally show up: "(i + 1) * n + j < n * n" .
  have "i * n + j + 1 \<le> (i + 1) * n + j" using i' by (simp add: algebra_simps)
  with up show "i * n + j + 1 < n * n" by linarith
  then show "i * n + j < n * n" "i * n + j - 1 < n * n" by linarith+
  have "(i - 1) * n \<le> i * n" by simp
  then have "(i - 1) * n + j \<le> i * n + j" by simp
  with \<open>i * n + j < n * n\<close> show "(i - 1) * n + j < n * n" by linarith
qed

lemma index_lt: "i < n \<Longrightarrow> j < n \<Longrightarrow> i * n + j < n * (n::nat)"
proof -
  assume a: "i < n" "j < n"
  then have "i * n + j < i * n + n" by simp
  also have "\<dots> = Suc i * n" by simp
  also have "\<dots> \<le> n * n" using a by (intro mult_le_mono1) simp
  finally show ?thesis .
qed

lemma index_div_mod: "j < n \<Longrightarrow> (i * n + j) div n = i \<and> (i * n + j) mod n = (j::nat)"
  by simp

lemma int_index: "int i * int n + int j = int (i * n + j)"
  by simp

lemma is_inside_grid:
  assumes "i < n" "j < n"
  shows "is_inside L (map (\<lambda>i. replicate n (grid_point n L i)) [0..<n])
            (replicate n (map (grid_point n L) [0..<n])) i j
         \<longleftrightarrow> inside_pt n L i j"
proof -
  have xg: "map (\<lambda>i. replicate n (grid_point n L i)) [0..<n] ! i ! j = grid_point n L i"
    and yg: "replicate n (map (grid_point n L) [0..<n]) ! i ! j = grid_point n L j"
    using assms by simp_all
  show ?thesis
    unfolding is_inside_def xg yg inside_pt_def by (rule refl)
qed

lemma stencil_row_eq:
  assumes "interior n i j"
  shows "(replicate (n * n) 0)[i * n + j := - 4, (i - 1) * n + j := 1, (i + 1) * n + j := 1,
            i * n + j + 1 := 1, i * n + j - 1 := 1] = stencil_row n (i * n + j)"
proof -
  define k where "k = i * n + j"
  note b = interior_bounds[OF assms]
  have up: "(i + 1) * n + j = k + n" by (simp add: k_def algebra_simps)
  from b(1) obtain i' where i': "i = Suc i'" by (cases i) auto
  have dn: "(i - 1) * n + j = k - n" by (simp add: k_def i')
  have n3: "2 < n" using b by linarith
  have nk: "n < k" using b by (simp add: k_def i')
  have "(replicate (n * n) 0)[k := - 4, k - n := 1, k + n := 1, k + 1 := 1, k - 1 := 1] ! c
        = stencil_row n k ! c" if "c < n * n" for c
    using that n3 nk by (auto simp: stencil_row_def nth_list_update)
  then show ?thesis
    unfolding k_def[symmetric] up dn
    by (intro nth_equalityI) (simp_all add: stencil_row_def)
qed

lemma boundary_row_eq:
  "k < n * n \<Longrightarrow> (replicate (n * n) 0)[k := 1] = boundary_row n k"
  by (rule nth_equalityI) (auto simp: boundary_row_def nth_list_update)

lemma length_row_of [simp]: "length (row_of n L k) = n * n"
  by (simp add: row_of_def stencil_row_def boundary_row_def)

lemma state_upto_rows:
  "length (fst (state_upto gb n L p)) = n * n"
  "length (snd (state_upto gb n L p)) = n * n"
  "\<forall>r\<in>set (fst (state_upto gb n L p)). length r = n * n"
  "k < n * n \<Longrightarrow> fst (state_upto gb n L p) ! k = (if k < p then row_of n L k else replicate (n * n) 0)"
  by (auto simp: state_upto_def)

lemma state_upto_Suc:
  assumes "k < n * n"
  shows "state_upto gb n L (Suc k) =
         ((fst (state_upto gb n L k))[k := row_of n L k],
          (snd (state_upto gb n L k))[k := rhs_of gb n L k])"
  using assms
  by (auto simp: state_upto_def intro!: nth_equalityI simp: nth_list_update)

lemma cell_step:
  assumes i: "i < n" and j: "j < n"
  shows "cell (\<lambda>x y. Inr (gb x y)) (int n) L
            (map (\<lambda>i. replicate n (grid_point n L i)) [0..<n])
            (replicate n (map (grid_point n L) [0..<n])) i j
            (state_upto gb n L (i * n + j)) =
         Inr (state_upto gb n L (Suc (i * n + j)))"
proof -
  define k where "k = i * n + j"
  define A where "A = fst (state_upto gb n L k)"
  define B where "B = snd (state_upto gb n L k)"
  have k: "k < n * n" unfolding k_def using i j by (rule index_lt)
  have dm: "k div n = i" "k mod n = j" using j by (simp_all add: k_def)
  have lenA: "length A = n * n" and lenB: "length B = n * n"
    by (simp_all add: A_def B_def state_upto_rows)
  have sh: "shape1 A = n * n"
    using k by (intro shape1_nth[of k]) (simp_all add: A_def state_upto_rows)
  have Ak: "A ! k = replicate (n * n) 0"
    using k by (simp add: A_def state_upto_rows)
  have xg: "map (\<lambda>i. replicate n (grid_point n L i)) [0..<n] ! i ! j = grid_point n L i"
    and yg: "replicate n (map (grid_point n L) [0..<n]) ! i ! j = grid_point n L j"
    using i j by simp_all
  show ?thesis
  proof (cases "inside_pt n L i j")
    case True
    have int: "interior n i j" using i j True by (rule inside_pt_interior)
    note b = interior_bounds[OF int]
    have row: "row_of n L k = stencil_row n k" and rhs: "rhs_of gb n L k = 0"
      using True by (simp_all add: row_of_def rhs_of_def dm)
    have "foldE (\<lambda>cv A. setitem2 A (int k, fst cv) (snd cv))
            (stencil (int n) (int i) (int j)) A = Inr (A[k := stencil_row n k])"
      unfolding stencil_nat[OF b(1,2)]
      apply (subst foldE_setitem2_row)
      using k b apply (simp_all add: lenA sh Ak)
      using stencil_row_eq[OF int] apply (simp add: k_def)
      done
    moreover have "B[k := 0] = B"
      using k by (intro nth_equalityI) (auto simp: B_def state_upto_def nth_list_update)
    ultimately show ?thesis
      using True i j
      unfolding cell_def int_index is_inside_grid[OF i j] state_upto_Suc[OF k[unfolded k_def]]
      by (simp add: k_def[symmetric] A_def[symmetric] B_def[symmetric] row rhs)
  next
    case False
    have row: "row_of n L k = boundary_row n k"
      and rhs: "rhs_of gb n L k = gb (grid_point n L i) (grid_point n L j)"
      using False by (auto simp: row_of_def rhs_of_def dm)
    have "setitem2 A (int k, int k) 1 = Inr (A[k := boundary_row n k])"
      using k by (simp add: setitem2_nat lenA sh Ak boundary_row_eq)
    moreover have "setitem1 B (int k) v = Inr (B[k := v])" for v
      using k by (simp add: setitem1_nat lenB)
    ultimately show ?thesis
      using False
      unfolding cell_def int_index is_inside_grid[OF i j] state_upto_Suc[OF k[unfolded k_def]] xg yg
      by (auto simp add: k_def[symmetric] A_def[symmetric] B_def[symmetric] row rhs)
  qed
qed

subsection \<open>The two loops\<close>

lemma inner_loop:
  assumes "i < n" and "m \<le> n"
  shows "foldE (\<lambda>j. cell (\<lambda>x y. Inr (gb x y)) (int n) L
            (map (\<lambda>i. replicate n (grid_point n L i)) [0..<n])
            (replicate n (map (grid_point n L) [0..<n])) i j) [0..<m]
            (state_upto gb n L (i * n)) =
         Inr (state_upto gb n L (i * n + m))"
  using assms(2)
proof (induction m)
  case 0
  show ?case by simp
next
  case (Suc m)
  then have "m < n" by simp
  from cell_step[OF assms(1) this, of gb L] Suc show ?case
    by (simp add: foldE_upt_Suc del: upt_Suc)
qed

lemma outer_loop:
  assumes "m \<le> n"
  shows "foldE (\<lambda>i. foldE (\<lambda>j. cell (\<lambda>x y. Inr (gb x y)) (int n) L
            (map (\<lambda>i. replicate n (grid_point n L i)) [0..<n])
            (replicate n (map (grid_point n L) [0..<n])) i j) [0..<n]) [0..<m]
            (state_upto gb n L 0) =
         Inr (state_upto gb n L (m * n))"
  using assms
proof (induction m)
  case 0
  show ?case by simp
next
  case (Suc m)
  then have "m < n" by simp
  from inner_loop[OF this order_refl, of gb L] Suc show ?case
    by (simp add: foldE_upt_Suc add.commute del: upt_Suc)
qed

lemma state_upto_0: "state_upto gb n L 0 = (zeros2 (n * n) (n * n), zeros (n * n))"
  by (simp add: state_upto_def zeros_def zeros2_def map_replicate_const)

lemma shape_grid:
  "shape0 (map (\<lambda>i. replicate n (grid_point n L i)) [0..<n]) = n"
  "shape1 (map (\<lambda>i. replicate n (grid_point n L i)) [0..<n]) = n"
proof -
  show "shape0 (map (\<lambda>i. replicate n (grid_point n L i)) [0..<n]) = n"
    by (simp add: shape0_def)
  show "shape1 (map (\<lambda>i. replicate n (grid_point n L i)) [0..<n]) = n"
  proof (cases "n = 0")
    case True
    then show ?thesis by (simp add: shape1_def)
  next
    case False
    then show ?thesis by (intro shape1_nth[of 0]) auto
  qed
qed

lemma matrix_builder_g_total:
  assumes "\<not> overflows (L / 2)"
  shows "matrix_builder_g (\<lambda>x y. Inr (gb x y)) (int n) L = Inr (state_upto gb n L (n * n))"
proof -
  have "nat (int n * int n) = n * n" by (simp add: nat_mult_distrib)
  then show ?thesis
    unfolding matrix_builder_g_def grid_ok[OF assms]
    using outer_loop[of n n gb L]
    by (simp add: shape_grid state_upto_0)
qed

lemma matrix_builder_g_overflow:
  "overflows (L / 2) \<Longrightarrow> matrix_builder_g gf N L = Inl OverflowError"
  by (simp add: matrix_builder_g_def grid_def)


subsection \<open>Counting nonzero entries\<close>

lemma nnz_row_map_upt: "nnz_row (map f [0..<m]) = card {c. c < m \<and> f c \<noteq> 0}"
proof -
  have "nnz_row (map f [0..<m]) = length (filter (\<lambda>c. f c \<noteq> 0) [0..<m])"
    by (simp add: nnz_row_def filter_map o_def)
  also have "\<dots> = card (set (filter (\<lambda>c. f c \<noteq> 0) [0..<m]))"
    by (rule distinct_card[symmetric]) simp
  also have "set (filter (\<lambda>c. f c \<noteq> 0) [0..<m]) = {c. c < m \<and> f c \<noteq> 0}"
    by auto
  finally show ?thesis .
qed

lemma nnz_boundary_row: "k < n * n \<Longrightarrow> nnz_row (boundary_row n k) = 1"
proof -
  assume k: "k < n * n"
  have "{c. c < n * n \<and> (if c = k then 1 else (0::real)) \<noteq> 0} = {k}"
    using k by auto
  then show ?thesis by (simp add: boundary_row_def nnz_row_map_upt)
qed

lemma nnz_stencil_row:
  assumes "interior n i j"
  shows "nnz_row (stencil_row n (i * n + j)) = 5"
proof -
  define k where "k = i * n + j"
  note b = interior_bounds[OF assms]
  from b(1) obtain i' where i': "i = Suc i'" by (cases i) auto
  have n3: "2 < n" using b by linarith
  have nk: "n < k" using b by (simp add: k_def i')
  have kn: "k + n < n * n" using b(7) by (simp add: k_def algebra_simps)
  have "{c. c < n * n \<and> (if c = k then - 4 else if c + n = k \<or> c = k + n \<or> c + 1 = k \<or> c = k + 1 then 1 else (0::real)) \<noteq> 0}
        = {k, k - n, k + n, k - 1, k + 1}"
    using nk kn n3 by auto
  moreover have "card {k, k - n, k + n, k - 1, k + 1} = 5"
    using nk n3 by (auto simp: card_insert_if)
  ultimately show ?thesis
    unfolding k_def[symmetric] by (simp add: stencil_row_def nnz_row_map_upt)
qed

lemma nnz_row_of:
  assumes "k < n * n"
  shows "nnz_row (row_of n L k) = (if inside_pt n L (k div n) (k mod n) then 5 else 1)"
proof (cases "inside_pt n L (k div n) (k mod n)")
  case True
  have n: "0 < n" using assms by (cases n) auto
  then have "k mod n < n" by simp
  moreover have "k div n < n" using assms by (simp add: less_mult_imp_div_less)
  ultimately have "interior n (k div n) (k mod n)" using True by (intro inside_pt_interior)
  then have "nnz_row (stencil_row n (k div n * n + k mod n)) = 5"
    by (rule nnz_stencil_row)
  with True show ?thesis by (simp add: row_of_def)
next
  case False
  with assms show ?thesis by (auto simp: row_of_def nnz_boundary_row)
qed

lemma interior_count:
  "card {k. k < n * n \<and> interior n (k div n) (k mod n)} = (n - 2) * (n - 2)"
proof -
  let ?S = "{1..<n - 1} \<times> {1..<n - 1}"
  let ?f = "\<lambda>(i, j). i * n + j"
  have inj: "inj_on ?f ?S"
  proof (rule inj_onI)
    fix p q assume p: "p \<in> ?S" and q: "q \<in> ?S" and e: "?f p = ?f q"
    obtain i j where pij: "p = (i, j)" by (cases p)
    obtain i' j' where qij: "q = (i', j')" by (cases q)
    from p q pij qij have lt: "j < n" "j' < n" by auto
    from e pij qij have e': "i * n + j = i' * n + j'" by simp
    from e' lt have "(i * n + j) div n = (i' * n + j') div n" by simp
    with lt have "i = i'" by simp
    moreover from e' lt have "(i * n + j) mod n = (i' * n + j') mod n" by simp
    with lt have "j = j'" by simp
    ultimately show "p = q" by (simp add: pij qij)
  qed
  have img: "?f ` ?S = {k. k < n * n \<and> interior n (k div n) (k mod n)}"
  proof (intro set_eqI iffI)
    fix k assume "k \<in> ?f ` ?S"
    then obtain i j where ij: "k = i * n + j" "1 \<le> i" "i < n - 1" "1 \<le> j" "j < n - 1"
      by auto
    then have "i < n" "j < n" by auto
    with ij index_lt[of i n j] show "k \<in> {k. k < n * n \<and> interior n (k div n) (k mod n)}"
      by (simp add: interior_def)
  next
    fix k assume "k \<in> {k. k < n * n \<and> interior n (k div n) (k mod n)}"
    then have "interior n (k div n) (k mod n)" by simp
    then have "(k div n, k mod n) \<in> ?S" by (auto simp: interior_def)
    moreover have "?f (k div n, k mod n) = k" by simp
    ultimately show "k \<in> ?f ` ?S" by (metis (no_types, lifting) image_eqI)
  qed
  have "card {k. k < n * n \<and> interior n (k div n) (k mod n)} = card ?S"
    unfolding img[symmetric] by (rule card_image[OF inj])
  also have "\<dots> = (n - 2) * (n - 2)" by (simp add: numeral_2_eq_2)
  finally show ?thesis .
qed

lemma sum_list_if_card:
  "sum_list (map (\<lambda>k. if P k then (5::nat) else 1) [0..<m]) = m + 4 * card {k. k < m \<and> P k}"
proof (induction m)
  case 0
  show ?case by simp
next
  case (Suc m)
  have fin: "finite {k. k < m \<and> P k}" by simp
  have "{k. k < Suc m \<and> P k} = (if P m then insert m {k. k < m \<and> P k} else {k. k < m \<and> P k})"
    by (auto simp: less_Suc_eq)
  then have "card {k. k < Suc m \<and> P k} = (if P m then Suc (card {k. k < m \<and> P k}) else card {k. k < m \<and> P k})"
    using fin by simp
  with Suc show ?case by simp
qed

lemma nnz_state_upto:
  "nnz (fst (state_upto gb n L (n * n))) =
     n * n + 4 * card {k. k < n * n \<and> inside_pt n L (k div n) (k mod n)}"
proof -
  have "map nnz_row (fst (state_upto gb n L (n * n))) =
        map (\<lambda>k. if inside_pt n L (k div n) (k mod n) then 5 else 1) [0..<n * n]"
    by (simp add: state_upto_def nnz_row_of)
  then show ?thesis
    unfolding nnz_def by (simp add: sum_list_if_card)
qed

lemma inside_count:
  assumes "n \<le> 2 ^ 50" and "1 / 2 ^ 970 \<le> L" and "L \<le> 2 ^ 1023"
  shows "card {k. k < n * n \<and> inside_pt n L (k div n) (k mod n)} = (n - 2) * (n - 2)"
proof -
  have "inside_pt n L (k div n) (k mod n) = interior n (k div n) (k mod n)" if "k < n * n" for k
  proof -
    have n: "0 < n" using that by (cases n) auto
    then have "k mod n < n" by simp
    moreover have "k div n < n" using that by (simp add: less_mult_imp_div_less)
    ultimately show ?thesis by (intro inside_pt_iff[OF assms])
  qed
  then have "{k. k < n * n \<and> inside_pt n L (k div n) (k mod n)}
           = {k. k < n * n \<and> interior n (k div n) (k mod n)}"
    by auto
  then show ?thesis by (simp only: interior_count)
qed

subsection \<open>The nested boundary function\<close>

lemma g_total:
  "L \<noteq> 0 \<Longrightarrow> \<not> overflows L \<Longrightarrow> g L = (\<lambda>x y. Inr (cos (2 * pi / L * (2 * x + y))))"
  by (simp add: g_def fun_eq_iff)

lemma overflows_half: "overflows (L / 2) \<Longrightarrow> overflows L"
  unfolding overflows_def by linarith

subsection \<open>Calls outside the intended domain\<close>

lemma cos_3pi: "cos (3 * pi) = - 1"
proof -
  have "cos (3 * pi) = cos (pi + 2 * pi)" by simp
  also have "\<dots> = cos pi" by (rule cos_periodic)
  finally show ?thesis by simp
qed

lemma all_boundary_state:
  assumes "n \<le> 2 \<or> rnd (L / 2) \<le> 0"
  shows "state_upto gb n L (n * n) =
         (map (boundary_row n) [0..<n * n],
          map (\<lambda>k. gb (grid_point n L (k div n)) (grid_point n L (k mod n))) [0..<n * n])"
proof -
  have "\<not> inside_pt n L (k div n) (k mod n)" if "k < n * n" for k
  proof
    assume a: "inside_pt n L (k div n) (k mod n)"
    then have "0 < rnd (L / 2)" unfolding inside_pt_def by linarith
    with assms have n2: "n \<le> 2" by linarith
    have n: "0 < n" using that by (cases n) auto
    then have "k mod n < n" by simp
    moreover have "k div n < n" using that by (simp add: less_mult_imp_div_less)
    ultimately have "interior n (k div n) (k mod n)" using a by (intro inside_pt_interior)
    with n2 show False by (auto simp: interior_def)
  qed
  then show ?thesis
    by (simp add: state_upto_def row_of_def rhs_of_def)
qed


lemma foldE_first_fails: "0 < n \<Longrightarrow> f 0 s = Inl e \<Longrightarrow> foldE f [0..<n] s = Inl e"
  by (simp add: upt_conv_Cons)

lemma matrix_builder_g_fails:
  assumes "0 < n" and ov: "\<not> overflows (L / 2)" and gf: "\<And>x y. gf x y = Inl e"
  shows "matrix_builder_g gf (int n) L = Inl e"
proof -
  from assms have nn: "0 < n * n" by simp
  let ?xg = "map (\<lambda>i. replicate n (grid_point n L i)) [0..<n]"
  let ?yg = "replicate n (map (grid_point n L) [0..<n])"
  have "\<not> inside_pt n L 0 0"
    using inside_pt_interior[OF assms(1) assms(1), of L] by (auto simp: interior_def)
  then have ins: "\<not> is_inside L ?xg ?yg 0 0"
    using is_inside_grid[OF assms(1) assms(1), of L] by simp
  have sh: "shape1 (zeros2 (n * n) (n * n)) = n * n"
    using nn by (intro shape1_nth[of 0]) (simp_all add: zeros2_def)
  have len: "0 < length (zeros2 (n * n) (n * n))"
    using nn by (simp add: zeros2_def)
  have "0 < shape1 (zeros2 (n * n) (n * n))"
    using nn by (simp only: sh)
  with len have "setitem2 (zeros2 (n * n) (n * n)) (int 0, int 0) 1
        = Inr ((zeros2 (n * n) (n * n))[0 := (zeros2 (n * n) (n * n) ! 0)[0 := 1]])"
    by (rule setitem2_nat)
  then have c: "cell gf (int n) L ?xg ?yg 0 0 (zeros2 (n * n) (n * n), zeros (n * n))
        = Inl e"
    using ins by (simp add: cell_def gf)
  have "foldE (\<lambda>j. cell gf (int n) L ?xg ?yg 0 j) [0..<n]
          (zeros2 (n * n) (n * n), zeros (n * n)) = Inl e"
    using assms(1) c by (rule foldE_first_fails)
  with assms(1) have "foldE (\<lambda>i. foldE (\<lambda>j. cell gf (int n) L ?xg ?yg i j) [0..<n]) [0..<n]
          (zeros2 (n * n) (n * n), zeros (n * n)) = Inl e"
    by (rule foldE_first_fails)
  moreover have "nat (int n * int n) = n * n" by (simp add: nat_mult_distrib)
  ultimately show ?thesis
    unfolding matrix_builder_g_def grid_ok[OF ov]
    by (simp add: shape_grid del: upt_Suc)
qed


lemma matrix_builder_overflow:
  assumes "0 < n" and "overflows L"
  shows "matrix_builder (int n) L = Inl OverflowError"
proof (cases "overflows (L / 2)")
  case True
  then show ?thesis by (simp add: matrix_builder_def matrix_builder_g_overflow)
next
  case False
  have "L \<noteq> 0" using assms(2) by (auto simp: overflows_def)
  then have "g L x y = Inl OverflowError" for x y using assms(2) by (simp add: g_def)
  then show ?thesis
    unfolding matrix_builder_def using assms(1) False by (intro matrix_builder_g_fails)
qed

subsection \<open>The reshape of line 117 and its inverse\<close>

lemma concat_reshape_rows:
  "m * n \<le> length X \<Longrightarrow> concat (map (\<lambda>i. take n (drop (i * n) X)) [0..<m]) = take (m * n) X"
proof (induction m)
  case 0
  show ?case by simp
next
  case (Suc m)
  then have ih: "concat (map (\<lambda>i. take n (drop (i * n) X)) [0..<m]) = take (m * n) X" by simp
  have "concat (map (\<lambda>i. take n (drop (i * n) X)) [0..<Suc m]) =
        concat (map (\<lambda>i. take n (drop (i * n) X)) [0..<m]) @ take n (drop (m * n) X)"
    by simp
  also have "\<dots> = take (m * n) X @ take n (drop (m * n) X)" by (simp only: ih)
  also have "\<dots> = take (m * n + n) X" by (rule take_add[symmetric])
  also have "m * n + n = Suc m * n" by simp
  finally show ?case .
qed

lemma reshape_row_nth:
  assumes "length X = n * n" and "i < n" and "j < n"
  shows "take n (drop (i * n) X) ! j = X ! (i * n + j)"
proof -
  have "i * n + j < n * n" using assms(2,3) by (rule index_lt)
  then show ?thesis using assms by simp
qed

lemma length_concat_square:
  "\<forall>r\<in>set F. length r = n \<Longrightarrow> length (concat F) = length F * n"
  by (induction F) simp_all

lemma concat_row:
  "\<forall>r\<in>set F. length r = n \<Longrightarrow> i < length F \<Longrightarrow> take n (drop (i * n) (concat F)) = F ! i"
proof (induction F arbitrary: i)
  case Nil
  then show ?case by simp
next
  case (Cons r F)
  show ?case
  proof (cases i)
    case 0
    with Cons.prems show ?thesis by simp
  next
    case (Suc i')
    with Cons.prems have "take n (drop (i' * n) (concat F)) = F ! i'"
      by (intro Cons.IH) simp_all
    with Suc Cons.prems show ?thesis by simp
  qed
qed

subsection \<open>The solver entry point\<close>

lemma linspace_returns: "0 \<le> N \<Longrightarrow> \<exists>v. linspace a b N = Inr v"
  by (simp add: linspace_def)

lemma reshape_square:
  assumes "length X = n * n"
  shows "reshape X (int n) = Inr (map (\<lambda>i. take n (drop (i * n) X)) [0..<n])"
  using assms by (simp add: reshape_def)

lemma T_reshape_nth:
  assumes "length X = n * n" and "i < n" and "j < n"
  shows "T (map (\<lambda>i. take n (drop (i * n) X)) [0..<n]) ! j ! i = X ! (i * n + j)"
proof -
  let ?F = "map (\<lambda>i. take n (drop (i * n) X)) [0..<n]"
  have rows: "\<forall>r\<in>set ?F. length r = n"
  proof
    fix r assume "r \<in> set ?F"
    then obtain i where i: "i < n" and r: "r = take n (drop (i * n) X)" by auto
    from i have "Suc i * n \<le> n * n" by (intro mult_le_mono1) simp
    then have "i * n + n \<le> n * n" by simp
    then show "length r = n" using assms(1) r by simp
  qed
  have "shape1 ?F = n" using assms(2) rows by (intro shape1_nth[of 0]) simp_all
  then have "T ?F ! j ! i = ?F ! i ! j" using assms(2,3) by (simp add: T_def)
  also have "\<dots> = X ! (i * n + j)" using reshape_row_nth[OF assms] assms(2) by simp
  finally show ?thesis .
qed

lemma matrix_builder_2_2:
  "matrix_builder 2 2 =
     Inr ([[1, 0, 0, 0], [0, 1, 0, 0], [0, 0, 1, 0], [0, 0, 0, 1]], [- 1, - 1, - 1, - 1])"
proof -
  have "matrix_builder 2 2 =
      Inr (state_upto (\<lambda>x y. cos (2 * pi / 2 * (2 * x + y))) 2 2 (2 * 2))"
    using matrix_builder_g_total[OF no_overflow_2(1), of "\<lambda>x y. cos (2 * pi / 2 * (2 * x + y))" 2]
    by (simp add: matrix_builder_def g_total no_overflow_2)
  then show ?thesis
    by (simp add: state_upto_def row_of_def rhs_of_def boundary_row_def inside_pt_def
        grid_point_2_2 cos_3pi upt_conv_Cons)
qed

subsection \<open>Lists of nine elements\<close>


subsection \<open>The builder on a store and the builder on values\<close>

lemma foldE_sim:
  assumes "\<And>x a. f' x (emb a) = bindE (f x a) (\<lambda>a'. Inr (emb a'))"
  shows "foldE f' xs (emb a) = bindE (foldE f xs a) (\<lambda>a'. Inr (emb a'))"
proof (induction xs arbitrary: a)
  case Nil
  show ?case by simp
next
  case (Cons x xs)
  show ?case
  proof (cases "f x a")
    case (Inl e)
    then show ?thesis by (simp add: assms)
  next
    case (Inr a')
    then show ?thesis by (simp add: assms Cons.IH)
  qed
qed

lemma put_nth:
  assumes "pA < length s" and "pB < length s" and "pA \<noteq> pB"
  shows "put_arrays pA pB s AB ! pA = Array2 (fst AB)" and "put_arrays pA pB s AB ! pB = Array1 (snd AB)"
  using assms by (simp_all add: put_arrays_def)

lemma put_update:
  assumes "pA \<noteq> pB"
  shows "(put_arrays pA pB s (A, B))[pA := Array2 A'] = put_arrays pA pB s (A', B)"
    and "(put_arrays pA pB s (A, B))[pB := Array1 B'] = put_arrays pA pB s (A, B')"
  using assms by (simp_all add: put_arrays_def list_update_swap[of pA pB])

lemma store_setitem2_sim:
  assumes "pA < length s" and "pB < length s" and "pA \<noteq> pB"
  shows "store_setitem2 pA rc v (put_arrays pA pB s (A, B)) =
         bindE (setitem2 A rc v) (\<lambda>A'. Inr (put_arrays pA pB s (A', B)))"
  using put_nth(1)[OF assms, of "(A, B)"] put_update(1)[OF assms(3), of s A B]
  by (simp add: store_setitem2_def)

lemma store_setitem1_sim:
  assumes "pA < length s" and "pB < length s" and "pA \<noteq> pB"
  shows "store_setitem1 pB k v (put_arrays pA pB s (A, B)) =
         bindE (setitem1 B k v) (\<lambda>B'. Inr (put_arrays pA pB s (A, B')))"
  using put_nth(2)[OF assms, of "(A, B)"] put_update(2)[OF assms(3), of s A B]
  by (simp add: store_setitem1_def)

lemma cell_store_sim:
  assumes "pA < length s" and "pB < length s" and "pA \<noteq> pB"
  shows "cell_store gf N L xg yg pA pB i j (put_arrays pA pB s AB) =
         bindE (cell gf N L xg yg i j AB) (\<lambda>AB'. Inr (put_arrays pA pB s AB'))"
proof -
  obtain A B where AB: "AB = (A, B)" by (cases AB)
  show ?thesis
  proof (cases "is_inside L xg yg i j")
    case True
    have "foldE (\<lambda>cv s. store_setitem2 pA (int i * N + int j, fst cv) (snd cv) s)
            (stencil N (int i) (int j)) (put_arrays pA pB s (A, B)) =
          bindE (foldE (\<lambda>cv A. setitem2 A (int i * N + int j, fst cv) (snd cv))
            (stencil N (int i) (int j)) A) (\<lambda>A'. Inr (put_arrays pA pB s (A', B)))"
      by (rule foldE_sim[where emb = "\<lambda>A. put_arrays pA pB s (A, B)"])
         (rule store_setitem2_sim[OF assms])
    with True show ?thesis
      by (cases "foldE (\<lambda>cv A. setitem2 A (int i * N + int j, fst cv) (snd cv))
            (stencil N (int i) (int j)) A") (simp_all add: cell_store_def cell_def AB)
  next
    case False
    show ?thesis
    proof (cases "setitem2 A (int i * N + int j, int i * N + int j) 1")
      case (Inl e)
      with False show ?thesis
        by (simp add: cell_store_def cell_def AB store_setitem2_sim[OF assms])
    next
      case (Inr A')
      show ?thesis
      proof (cases "gf (xg ! i ! j) (yg ! i ! j)")
        case (Inl e)
        with False Inr show ?thesis
          by (simp add: cell_store_def cell_def AB store_setitem2_sim[OF assms])
      next
        case v: (Inr v)
        with False Inr show ?thesis
          by (cases "setitem1 B (int i * N + int j) v")
             (simp_all add: cell_store_def cell_def AB store_setitem2_sim[OF assms]
                store_setitem1_sim[OF assms])
      qed
    qed
  qed
qed

lemma loops_store_sim:
  assumes "pA < length s" and "pB < length s" and "pA \<noteq> pB"
  shows "foldE (\<lambda>i. foldE (\<lambda>j. cell_store gf N L xg yg pA pB i j) js) is (put_arrays pA pB s AB) =
         bindE (foldE (\<lambda>i. foldE (\<lambda>j. cell gf N L xg yg i j) js) is AB)
               (\<lambda>AB'. Inr (put_arrays pA pB s AB'))"
  by (rule foldE_sim, rule foldE_sim, rule cell_store_sim[OF assms])

lemma matrix_builder_store_eq:
  "matrix_builder_store gf N L s =
     bindE (matrix_builder_g gf N L)
       (\<lambda>AB. Inr ((length s, Suc (length s)), s @ [Array2 (fst AB), Array1 (snd AB)]))"
proof (cases "grid N L")
  case (Inl e)
  then show ?thesis by (simp add: matrix_builder_store_def matrix_builder_g_def)
next
  case (Inr xy)
  let ?s0 = "s @ [Array2 [], Array1 []]"
  have p: "length s < length ?s0" "Suc (length s) < length ?s0" "length s \<noteq> Suc (length s)"
    by simp_all
  have e: "put_arrays (length s) (Suc (length s)) ?s0 AB = s @ [Array2 (fst AB), Array1 (snd AB)]" for AB
    by (simp add: put_arrays_def list_update_append)
  have "foldE (\<lambda>i. foldE (\<lambda>j. cell_store gf N L (fst xy) (snd xy) (length s) (Suc (length s)) i j)
                                  [0..<shape1 (fst xy)])
                      [0..<shape0 (fst xy)] (s @ [Array2 (fst AB), Array1 (snd AB)]) =
        bindE (foldE (\<lambda>i. foldE (\<lambda>j. cell gf N L (fst xy) (snd xy) i j) [0..<shape1 (fst xy)])
                      [0..<shape0 (fst xy)] AB)
              (\<lambda>AB'. Inr (s @ [Array2 (fst AB'), Array1 (snd AB')]))" for AB
    using loops_store_sim[OF p, of gf N L "fst xy" "snd xy" _ _ AB] unfolding e .
  from this[of "(zeros2 (nat (N * N)) (nat (N * N)), zeros (nat (N * N)))"] Inr
  show ?thesis
    by (cases "foldE (\<lambda>i. foldE (\<lambda>j. cell gf N L (fst xy) (snd xy) i j) [0..<shape1 (fst xy)])
                      [0..<shape0 (fst xy)] (zeros2 (nat (N * N)) (nat (N * N)), zeros (nat (N * N)))")
       (simp_all add: matrix_builder_store_def matrix_builder_g_def new_array_def)
qed

lemma matrix_builder_g_const_2_2:
  "matrix_builder_g (\<lambda>x y. Inr 1) 2 2 =
     Inr ([[1, 0, 0, 0], [0, 1, 0, 0], [0, 0, 1, 0], [0, 0, 0, 1]], [1, 1, 1, 1])"
proof -
  have "matrix_builder_g (\<lambda>x y. Inr 1) 2 2 = Inr (state_upto (\<lambda>x y. 1) 2 2 (2 * 2))"
    using matrix_builder_g_total[OF no_overflow_2(1), of "\<lambda>x y. 1" 2] by simp
  then show ?thesis
    by (simp add: state_upto_def row_of_def rhs_of_def boundary_row_def inside_pt_def
        grid_point_2_2 upt_conv_Cons)
qed

subsection \<open>The system of the 3 by 3 grid with the nested boundary function\<close>



lemma overflows_quotient:
  assumes "1 \<le> c" and "\<not> overflows L"
  shows "\<not> overflows (L / c)"
proof -
  have "\<bar>L\<bar> / c \<le> \<bar>L\<bar> / 1" using assms(1) by (intro divide_left_mono) simp_all
  then have a: "\<bar>L\<bar> / c \<le> \<bar>L\<bar>" by simp
  have "\<bar>c\<bar> = c" using assms(1) by linarith
  then have "\<bar>L / c\<bar> = \<bar>L\<bar> / c" by (simp only: abs_divide)
  with a have "\<bar>L / c\<bar> \<le> \<bar>L\<bar>" by linarith
  with assms(2) show ?thesis unfolding overflows_def by linarith
qed

lemma plot_solution_returns:
  assumes "2 \<le> n" and "length X = n * n" and "\<not> overflows L"
  shows "\<exists>xc yc. plot_solution (int n) L X =
           Inr \<lparr>x_corner_points = xc, y_corner_points = yc,
                colours = T (map (\<lambda>i. take n (drop (i * n) X)) [0..<n])\<rparr>"
proof -
  obtain xc where xc:
    "linspace (rnd (rnd (- L / 2) - rnd (rnd (L / real_of_int (int n - 1)) / 2)))
              (rnd (rnd (L / 2) + rnd (rnd (L / real_of_int (int n - 1)) / 2))) (int n + 1) = Inr xc"
    using linspace_returns[of "int n + 1"] by auto
  have n1: "int n - 1 \<noteq> 0" using assms(1) by simp
  have "1 \<le> real_of_int (int n - 1)" using assms(1) by simp
  then have o1: "\<not> overflows (L / real_of_int (int n - 1))"
    using assms(3) by (rule overflows_quotient)
  have o2: "\<not> overflows (L / 2)" using assms(3) by (intro overflows_quotient) simp_all
  have "plot_solution (int n) L X =
          Inr \<lparr>x_corner_points = xc, y_corner_points = xc,
                colours = T (map (\<lambda>i. take n (drop (i * n) X)) [0..<n])\<rparr>"
    unfolding plot_solution_def reshape_square[OF assms(2)] xc using n1 o1 o2 by simp
  then show ?thesis by blast
qed

section \<open>The claims of the specification\<close>

text \<open>
  Claim C1 says that for every \<open>L > 0\<close> row \<open>k\<close> of an interior point holds the stencil. The
  test of line 97 is a comparison of doubles: for \<open>L = 2\<^sup>-\<^sup>1\<^sup>0\<^sup>7\<^sup>4\<close>, the smallest positive
  double, \<^verbatim>\<open>L/2\<close> rounds to zero, every grid coordinate is zero and no point passes the test.
  So \<^verbatim>\<open>matrix_builder(3, 5e-324)\<close> writes the boundary row at the interior point \<open>(1, 1)\<close>,
  flat index 4: \<open>A[4, 4] = 1\<close> and not \<open>-4\<close>.
\<close>

theorem assembler_entries_counterexample:
  "interior 3 1 1
 \<and> map_sum id (\<lambda>AB. fst AB ! 4) (matrix_builder 3 (1 / 2 ^ 1074))
     = Inr [0, 0, 0, 0, 1, 0, 0, 0, 0]"
proof -
  have "map_sum id (\<lambda>AB. fst AB ! 4) (matrix_builder 3 L) = Inr [0, 0, 0, 0, 1, 0, 0, 0, 0]"
    if h: "rnd (L / 2) = 0" and L0: "L \<noteq> 0" and ov: "\<not> overflows L" for L
  proof -
    have ov2: "\<not> overflows (L / 2)" using ov overflows_half by blast
    have "matrix_builder (int 3) L =
        Inr (state_upto (\<lambda>x y. cos (2 * pi / L * (2 * x + y))) 3 L (3 * 3))"
      unfolding matrix_builder_def g_total[OF L0 ov] by (rule matrix_builder_g_total[OF ov2])
    then show ?thesis
      unfolding all_boundary_state[of 3 L, OF disjI2, OF eq_refl, OF h]
      by (simp add: boundary_row_def upt_conv_Cons)
  qed
  moreover have "rnd (1 / 2 ^ 1074 / 2) = 0"
  proof -
    have "(1 / 2 ^ 1074 / 2 :: real) = 1 / 2 ^ 1075" by simp
    then show ?thesis by (simp only: rnd_half_quantum)
  qed
  moreover have "(1 / 2 ^ 1074 :: real) \<noteq> 0" by simp
  moreover have "\<not> overflows (1 / 2 ^ 1074)" by (simp add: overflows_def)
  ultimately have "map_sum id (\<lambda>AB. fst AB ! 4) (matrix_builder 3 (1 / 2 ^ 1074))
     = Inr [0, 0, 0, 0, 1, 0, 0, 0, 0]"
    by blast
  moreover have "interior 3 1 1" by (simp add: interior_def)
  ultimately show ?thesis by (rule conjI[rotated])
qed

text \<open>
  Claim C1 as amended. For \<open>2 \<le> N \<le> 2\<^sup>5\<^sup>0\<close>, \<open>2\<^sup>-\<^sup>9\<^sup>7\<^sup>0 \<le> L \<le> 2\<^sup>1\<^sup>0\<^sup>2\<^sup>3\<close>, any boundary function and
  any grid point \<open>(i, j)\<close> with flat index \<open>k = i N + j\<close>: the builder returns \<open>A\<close> of shape
  \<open>N\<^sup>2 \<times> N\<^sup>2\<close> and \<open>B\<close> of length \<open>N\<^sup>2\<close>; at an interior point row \<open>k\<close> of \<open>A\<close> holds \<open>-4\<close> at
  \<open>k\<close>, \<open>1\<close> at \<open>k - N\<close>, \<open>k + N\<close>, \<open>k - 1\<close>, \<open>k + 1\<close> and \<open>B[k] = 0\<close>; at any other point
  \<open>A[k, k] = 1\<close> and \<open>B[k]\<close> is the boundary function at the grid coordinates \<open>(x\<^sub>i, y\<^sub>j)\<close> that
  \<^verbatim>\<open>np.linspace\<close> computes; every other entry of row \<open>k\<close> is zero. The loop is stated for
  any boundary function; \<open>matrix_builder\<close> is the loop with the nested \<open>g\<close>.
\<close>

theorem assembler_entries:
  assumes "2 \<le> n" and "n \<le> 2 ^ 50" and "1 / 2 ^ 970 \<le> L" and "L \<le> 2 ^ 1023"
    and "i < n" and "j < n"
  shows "matrix_builder (int n) L =
           matrix_builder_g (\<lambda>x y. Inr (cos (2 * pi / L * (2 * x + y)))) (int n) L
         \<and> (\<exists>A B. matrix_builder_g (\<lambda>x y. Inr (gb x y)) (int n) L = Inr (A, B)
           \<and> length A = n * n \<and> (\<forall>r\<in>set A. length r = n * n) \<and> length B = n * n
           \<and> (if interior n i j
               then A ! (i * n + j) ! (i * n + j) = - 4
                  \<and> A ! (i * n + j) ! (i * n + j - n) = 1
                  \<and> A ! (i * n + j) ! (i * n + j + n) = 1
                  \<and> A ! (i * n + j) ! (i * n + j - 1) = 1
                  \<and> A ! (i * n + j) ! (i * n + j + 1) = 1
                  \<and> B ! (i * n + j) = 0
                  \<and> (\<forall>c<n * n. c \<notin> {i * n + j, i * n + j - n, i * n + j + n,
                                       i * n + j - 1, i * n + j + 1}
                        \<longrightarrow> A ! (i * n + j) ! c = 0)
               else A ! (i * n + j) ! (i * n + j) = 1
                  \<and> B ! (i * n + j) = gb (grid_point n L i) (grid_point n L j)
                  \<and> (\<forall>c<n * n. c \<noteq> i * n + j \<longrightarrow> A ! (i * n + j) ! c = 0)))"
proof -
  define k where "k = i * n + j"
  define A where "A = fst (state_upto gb n L (n * n))"
  define B where "B = snd (state_upto gb n L (n * n))"
  have k: "k < n * n" unfolding k_def using assms(5,6) by (rule index_lt)
  have dm: "k div n = i" "k mod n = j" using assms(6) by (simp_all add: k_def)
  have L0: "L \<noteq> 0"
  proof -
    have "(0::real) < 1 / 2 ^ 970" by simp
    with assms(3) show ?thesis by linarith
  qed
  have ov: "\<not> overflows L"
  proof -
    have "(2::real) ^ 1023 < 2 ^ 1024 - 2 ^ 970" by simp
    moreover have "\<bar>L\<bar> \<le> 2 ^ 1023" using assms(3,4) L0 by (simp add: abs_le_iff) 
    ultimately show ?thesis unfolding overflows_def by linarith
  qed
  have ov2: "\<not> overflows (L / 2)" using ov overflows_half by blast
  have ins: "inside_pt n L i j = interior n i j"
    using assms(2-6) by (rule inside_pt_iff)
  have res: "matrix_builder_g (\<lambda>x y. Inr (gb x y)) (int n) L = Inr (A, B)"
    by (simp add: matrix_builder_g_total[OF ov2] A_def B_def)
  have shape: "length A = n * n" "\<forall>r\<in>set A. length r = n * n" "length B = n * n"
    by (simp_all add: A_def B_def state_upto_rows)
  have Ak: "A ! k = row_of n L k" and Bk: "B ! k = rhs_of gb n L k"
    using k by (simp_all add: A_def B_def state_upto_def)
  have body: "if interior n i j
      then A ! k ! k = - 4 \<and> A ! k ! (k - n) = 1 \<and> A ! k ! (k + n) = 1
         \<and> A ! k ! (k - 1) = 1 \<and> A ! k ! (k + 1) = 1 \<and> B ! k = 0
         \<and> (\<forall>c<n * n. c \<notin> {k, k - n, k + n, k - 1, k + 1} \<longrightarrow> A ! k ! c = 0)
      else A ! k ! k = 1 \<and> B ! k = gb (grid_point n L i) (grid_point n L j)
         \<and> (\<forall>c<n * n. c \<noteq> k \<longrightarrow> A ! k ! c = 0)"
  proof (cases "interior n i j")
    case True
    note b = interior_bounds[OF True]
    from b(1) obtain i' where i': "i = Suc i'" by (cases i) auto
    have n3: "2 < n" using b by linarith
    have nk: "n < k" using b by (simp add: k_def i')
    have kn: "k + n < n * n" using b(7) by (simp add: k_def algebra_simps)
    have k1: "k + 1 < n * n" using b(8) by (simp add: k_def)
    have row: "A ! k = stencil_row n k" using True ins by (simp add: Ak row_of_def dm)
    have "B ! k = 0" using True ins by (simp add: Bk rhs_of_def dm)
    moreover have "stencil_row n k ! k = - 4" using k by (simp add: stencil_row_def)
    moreover have "stencil_row n k ! (k - n) = 1" using k nk n3 by (simp add: stencil_row_def)
    moreover have "stencil_row n k ! (k + n) = 1" using kn nk n3 by (simp add: stencil_row_def)
    moreover have "stencil_row n k ! (k - 1) = 1" using k nk n3 by (simp add: stencil_row_def)
    moreover have "stencil_row n k ! (k + 1) = 1" using k1 nk n3 by (simp add: stencil_row_def)
    moreover have "\<forall>c<n * n. c \<notin> {k, k - n, k + n, k - 1, k + 1} \<longrightarrow> stencil_row n k ! c = 0"
      using nk by (auto simp: stencil_row_def)
    ultimately show ?thesis using True by (simp add: row)
  next
    case False
    have row: "A ! k = boundary_row n k" using False ins by (simp add: Ak row_of_def dm)
    have "B ! k = gb (grid_point n L i) (grid_point n L j)"
      using False ins by (simp add: Bk rhs_of_def dm)
    moreover have "boundary_row n k ! k = 1" using k by (simp add: boundary_row_def)
    moreover have "\<forall>c<n * n. c \<noteq> k \<longrightarrow> boundary_row n k ! c = 0"
      by (simp add: boundary_row_def)
    ultimately show ?thesis using False by (simp add: row)
  qed
  have code: "matrix_builder (int n) L =
      matrix_builder_g (\<lambda>x y. Inr (cos (2 * pi / L * (2 * x + y)))) (int n) L"
    using L0 ov by (simp add: matrix_builder_def g_total)
  have "\<exists>A B. matrix_builder_g (\<lambda>x y. Inr (gb x y)) (int n) L = Inr (A, B)
           \<and> length A = n * n \<and> (\<forall>r\<in>set A. length r = n * n) \<and> length B = n * n
           \<and> (if interior n i j
               then A ! k ! k = - 4 \<and> A ! k ! (k - n) = 1 \<and> A ! k ! (k + n) = 1
                  \<and> A ! k ! (k - 1) = 1 \<and> A ! k ! (k + 1) = 1 \<and> B ! k = 0
                  \<and> (\<forall>c<n * n. c \<notin> {k, k - n, k + n, k - 1, k + 1} \<longrightarrow> A ! k ! c = 0)
               else A ! k ! k = 1 \<and> B ! k = gb (grid_point n L i) (grid_point n L j)
                  \<and> (\<forall>c<n * n. c \<noteq> k \<longrightarrow> A ! k ! c = 0))"
    using res shape body by blast
  with code show ?thesis unfolding k_def by blast
qed

theorem assembler_entries_witness:
  "\<exists>A B. matrix_builder_g (\<lambda>x y. Inr (x + y)) 3 2 = Inr (A, B)
     \<and> length A = 9 \<and> length B = 9
     \<and> A ! 4 ! 4 = - 4 \<and> A ! 4 ! 1 = 1 \<and> A ! 4 ! 7 = 1 \<and> A ! 4 ! 3 = 1 \<and> A ! 4 ! 5 = 1
     \<and> A ! 4 ! 0 = 0 \<and> B ! 4 = 0"
  using assembler_entries[of 3 2 1 1 "\<lambda>x y. x + y"]
  by (auto simp: interior_def)

text \<open>
  Claim C4 says that for every \<open>L > 0\<close> the classification is the one by index and does not
  depend on \<open>L\<close>. On the \<open>3 \<times> 3\<close> grid the point \<open>(1, 1)\<close> is interior by index and passes
  the test of the builder for \<open>L = 2\<close>, but not for \<open>L = 2\<^sup>-\<^sup>1\<^sup>0\<^sup>7\<^sup>4\<close>, where \<^verbatim>\<open>L/2\<close> rounds to zero.
\<close>

theorem classification_by_index_counterexample:
  "\<exists>xg yg xg' yg'. grid 3 (1 / 2 ^ 1074) = Inr (xg, yg) \<and> grid 3 2 = Inr (xg', yg')
      \<and> interior 3 1 1
      \<and> \<not> is_inside (1 / 2 ^ 1074) xg yg 1 1 \<and> is_inside 2 xg' yg' 1 1"
proof -
  have tiny: "\<exists>xg yg. grid (int 3) L = Inr (xg, yg) \<and> \<not> is_inside L xg yg 1 1"
    if h: "rnd (L / 2) = 0" and ov: "\<not> overflows (L / 2)" for L
  proof -
    have "\<not> inside_pt 3 L 1 1" unfolding inside_pt_def h by simp
    then have "\<not> is_inside L (map (\<lambda>i. replicate 3 (grid_point 3 L i)) [0..<3])
        (replicate 3 (map (grid_point 3 L) [0..<3])) 1 1"
      using is_inside_grid[of 1 3 1 L] by simp
    with grid_ok[OF ov, of 3] show ?thesis by blast
  qed
  have "rnd (1 / 2 ^ 1074 / 2) = 0"
  proof -
    have "(1 / 2 ^ 1074 / 2 :: real) = 1 / 2 ^ 1075" by simp
    then show ?thesis by (simp only: rnd_half_quantum)
  qed
  moreover have "\<not> overflows (1 / 2 ^ 1074 / 2)" by (simp add: overflows_def)
  ultimately obtain xg yg where a: "grid (int 3) (1 / 2 ^ 1074) = Inr (xg, yg)"
    and b: "\<not> is_inside (1 / 2 ^ 1074) xg yg 1 1"
    using tiny by blast
  have "inside_pt 3 2 1 1" by (simp add: inside_pt_def grid_point_3_2)
  then have c: "is_inside 2 (map (\<lambda>i. replicate 3 (grid_point 3 2 i)) [0..<3])
        (replicate 3 (map (grid_point 3 2) [0..<3])) 1 1"
    using is_inside_grid[of 1 3 1 2] by simp
  have d: "interior 3 1 1" by (simp add: interior_def)
  have e: "int 3 = 3" by simp
  from a b c d grid_ok[OF no_overflow_2(1), of 3] show ?thesis
    unfolding e by blast
qed

text \<open>
  Claim C4 as amended. For \<open>2 \<le> N \<le> 2\<^sup>5\<^sup>0\<close> and \<open>2\<^sup>-\<^sup>9\<^sup>7\<^sup>0 \<le> L \<le> 2\<^sup>1\<^sup>0\<^sup>2\<^sup>3\<close> the test of the builder
  holds at the grid point \<open>(i, j)\<close> exactly when \<open>0 < i < N - 1\<close> and \<open>0 < j < N - 1\<close>; the test
  is a truth value, so a point is interior or boundary and never both, and it is the same
  for every \<open>L\<close> of that range: there it depends on \<open>N\<close>, \<open>i\<close> and \<open>j\<close> only.
\<close>

theorem classification_by_index:
  assumes "2 \<le> n" and "n \<le> 2 ^ 50" and "1 / 2 ^ 970 \<le> L" and "L \<le> 2 ^ 1023"
    and "1 / 2 ^ 970 \<le> L'" and "L' \<le> 2 ^ 1023" and "i < n" and "j < n"
  shows "\<exists>xg yg xg' yg'. grid (int n) L = Inr (xg, yg) \<and> grid (int n) L' = Inr (xg', yg')
           \<and> is_inside L xg yg i j = interior n i j
           \<and> is_inside L' xg' yg' i j = is_inside L xg yg i j"
proof -
  have ov: "\<not> overflows (M / 2)" if "1 / 2 ^ 970 \<le> M" and "M \<le> 2 ^ 1023" for M :: real
  proof -
    have "(0::real) < 1 / 2 ^ 970" by simp
    with that have "\<bar>M / 2\<bar> \<le> 2 ^ 1023" by (simp add: abs_le_iff)
    moreover have "(2::real) ^ 1023 < 2 ^ 1024 - 2 ^ 970" by simp
    ultimately show ?thesis unfolding overflows_def by linarith
  qed
  have "is_inside L (map (\<lambda>i. replicate n (grid_point n L i)) [0..<n])
            (replicate n (map (grid_point n L) [0..<n])) i j = interior n i j"
    unfolding is_inside_grid[OF assms(7,8)] using assms(2,3,4,7,8) by (rule inside_pt_iff)
  moreover have "is_inside L' (map (\<lambda>i. replicate n (grid_point n L' i)) [0..<n])
            (replicate n (map (grid_point n L') [0..<n])) i j = interior n i j"
    unfolding is_inside_grid[OF assms(7,8)] using assms(2,5,6,7,8) by (rule inside_pt_iff)
  ultimately show ?thesis
    using grid_ok[OF ov[OF assms(3,4)], of n] grid_ok[OF ov[OF assms(5,6)], of n] by simp
qed

theorem classification_by_index_witness:
  "\<exists>xg yg xg' yg'. grid 3 2 = Inr (xg, yg) \<and> grid 3 5 = Inr (xg', yg')
      \<and> is_inside 2 xg yg 1 1 \<and> is_inside 5 xg' yg' 1 1"
  using classification_by_index[of 3 2 5 1 1]
  by (auto simp: interior_def)

text \<open>
  Claim C5 says that for every \<open>L > 0\<close> the matrix has \<open>4 (N - 2)\<^sup>2 + N\<^sup>2\<close> nonzero entries, 13
  for \<open>N = 3\<close>. \<^verbatim>\<open>matrix_builder(3, 5e-324)\<close>, with \<open>L = 2\<^sup>-\<^sup>1\<^sup>0\<^sup>7\<^sup>4\<close>, builds nine boundary rows:
  every row has one nonzero entry, the row of the interior point too, and \<open>A\<close> has 9.
\<close>

theorem nonzero_pattern_counterexample:
  "map_sum id (\<lambda>AB. (map nnz_row (fst AB), nnz (fst AB))) (matrix_builder 3 (1 / 2 ^ 1074))
     = Inr ([1, 1, 1, 1, 1, 1, 1, 1, 1], 9)"
proof -
  have "map_sum id (\<lambda>AB. (map nnz_row (fst AB), nnz (fst AB))) (matrix_builder 3 L)
          = Inr ([1, 1, 1, 1, 1, 1, 1, 1, 1], 9)"
    if h: "rnd (L / 2) = 0" and L0: "L \<noteq> 0" and ov: "\<not> overflows L" for L
  proof -
    have ov2: "\<not> overflows (L / 2)" using ov overflows_half by blast
    have "matrix_builder (int 3) L =
        Inr (state_upto (\<lambda>x y. cos (2 * pi / L * (2 * x + y))) 3 L (3 * 3))"
      unfolding matrix_builder_def g_total[OF L0 ov] by (rule matrix_builder_g_total[OF ov2])
    then show ?thesis
      unfolding all_boundary_state[of 3 L, OF disjI2, OF eq_refl, OF h]
      by (simp add: boundary_row_def upt_conv_Cons nnz_def nnz_row_def)
  qed
  moreover have "rnd (1 / 2 ^ 1074 / 2) = 0"
  proof -
    have "(1 / 2 ^ 1074 / 2 :: real) = 1 / 2 ^ 1075" by simp
    then show ?thesis by (simp only: rnd_half_quantum)
  qed
  moreover have "(1 / 2 ^ 1074 :: real) \<noteq> 0" by simp
  moreover have "\<not> overflows (1 / 2 ^ 1074)" by (simp add: overflows_def)
  ultimately show ?thesis by blast
qed

text \<open>
  Claim C5 as amended. For \<open>2 \<le> N \<le> 2\<^sup>5\<^sup>0\<close> and \<open>2\<^sup>-\<^sup>9\<^sup>7\<^sup>0 \<le> L \<le> 2\<^sup>1\<^sup>0\<^sup>2\<^sup>3\<close> every row of the
  assembled \<open>A\<close> has 5 nonzero entries when its grid point is interior and 1 otherwise, and
  \<open>A\<close> has \<open>4 (N - 2)\<^sup>2 + N\<^sup>2\<close> nonzero entries in all.
\<close>

theorem nonzero_pattern:
  assumes "2 \<le> n" and "n \<le> 2 ^ 50" and "1 / 2 ^ 970 \<le> L" and "L \<le> 2 ^ 1023"
  shows "\<exists>A B. matrix_builder_g (\<lambda>x y. Inr (gb x y)) (int n) L = Inr (A, B)
           \<and> (\<forall>k<n * n. nnz_row (A ! k) = (if interior n (k div n) (k mod n) then 5 else 1))
           \<and> nnz A = 4 * (n - 2)\<^sup>2 + n\<^sup>2"
proof -
  have ov: "\<not> overflows (L / 2)"
  proof -
    have "(0::real) < 1 / 2 ^ 970" by simp
    with assms(3,4) have "\<bar>L / 2\<bar> \<le> 2 ^ 1023" by (simp add: abs_le_iff)
    moreover have "(2::real) ^ 1023 < 2 ^ 1024 - 2 ^ 970" by simp
    ultimately show ?thesis unfolding overflows_def by linarith
  qed
  have "nnz_row (fst (state_upto gb n L (n * n)) ! k)
          = (if interior n (k div n) (k mod n) then 5 else 1)" if "k < n * n" for k
  proof -
    have n: "0 < n" using that by (cases n) auto
    then have "k mod n < n" by simp
    moreover have "k div n < n" using that by (simp add: less_mult_imp_div_less)
    ultimately have "inside_pt n L (k div n) (k mod n) = interior n (k div n) (k mod n)"
      by (intro inside_pt_iff[OF assms(2-4)])
    then show ?thesis using that by (simp add: state_upto_def nnz_row_of)
  qed
  moreover have "nnz (fst (state_upto gb n L (n * n))) = 4 * (n - 2)\<^sup>2 + n\<^sup>2"
    by (simp add: nnz_state_upto inside_count[OF assms(2-4)] power2_eq_square)
  moreover have "matrix_builder_g (\<lambda>x y. Inr (gb x y)) (int n) L =
      Inr (fst (state_upto gb n L (n * n)), snd (state_upto gb n L (n * n)))"
    by (simp add: matrix_builder_g_total[OF ov])
  ultimately show ?thesis by blast
qed

theorem nonzero_pattern_witness:
  "\<exists>A B. matrix_builder_g (\<lambda>x y. Inr 1) 3 2 = Inr (A, B)
      \<and> nnz_row (A ! 4) = 5 \<and> nnz_row (A ! 0) = 1 \<and> nnz A = 13"
  using nonzero_pattern[of 3 2 "\<lambda>x y. 1"]
  by (auto simp: interior_def)

text \<open>
  Claim C10. For \<open>N \<ge> 2\<close> and \<open>L > 0\<close>, at a grid point \<open>(i, j)\<close> that passes the test of the
  builder, the five column indices written by lines 98 to 102 (the first is the row index
  \<open>i N + j\<close> as well) lie in \<open>[0, N\<^sup>2)\<close>, so that numpy takes each as it is, without
  counting from the end and without IndexError; each is the flat index of the grid point
  \<open>(i, j)\<close>, \<open>(i - 1, j)\<close>, \<open>(i + 1, j)\<close>, \<open>(i, j + 1)\<close>, \<open>(i, j - 1)\<close>, all of them on the
  grid; and the builder returns a result.
\<close>

theorem stencil_indices_in_range:
  assumes "2 \<le> n" and "0 < L" and "i < n" and "j < n"
    and "grid (int n) L = Inr (xg, yg)" and "is_inside L xg yg i j"
  shows "(\<forall>cv\<in>set (stencil (int n) (int i) (int j)).
            0 \<le> fst cv \<and> fst cv < int n * int n
          \<and> norm_index (fst cv) (n * n) = Inr (nat (fst cv)))
       \<and> map (\<lambda>cv. (fst cv div int n, fst cv mod int n)) (stencil (int n) (int i) (int j))
           = [(int i, int j), (int i - 1, int j), (int i + 1, int j),
              (int i, int j + 1), (int i, int j - 1)]
       \<and> 0 \<le> int i - 1 \<and> int i + 1 < int n \<and> 0 \<le> int j - 1 \<and> int j + 1 < int n
       \<and> (\<exists>AB. matrix_builder_g (\<lambda>x y. Inr (gb x y)) (int n) L = Inr AB)"
proof -
  have ov: "\<not> overflows (L / 2)"
    using assms(5) by (cases "overflows (L / 2)") (simp_all add: grid_overflow)
  from assms(5) have "xg = map (\<lambda>i. replicate n (grid_point n L i)) [0..<n]"
    and "yg = replicate n (map (grid_point n L) [0..<n])"
    by (simp_all add: grid_ok[OF ov])
  with assms(6) is_inside_grid[OF assms(3,4), of L] have "inside_pt n L i j"
    by simp
  with assms(3,4) have int: "interior n i j" by (rule inside_pt_interior)
  note b = interior_bounds[OF int]
  from b(1) obtain i' where i': "i = Suc i'" by (cases i) auto
  from b(2) obtain j' where j': "j = Suc j'" by (cases j) auto
  have st: "stencil (int n) (int i) (int j) =
         map (\<lambda>cv. (int (fst cv), snd cv))
           [(i * n + j, - 4), ((i - 1) * n + j, 1), ((i + 1) * n + j, 1),
            (i * n + j + 1, 1), (i * n + j - 1, 1)]"
    by (rule stencil_nat[OF b(1,2)])
  have rng: "\<forall>cv\<in>set (stencil (int n) (int i) (int j)).
            0 \<le> fst cv \<and> fst cv < int n * int n
          \<and> norm_index (fst cv) (n * n) = Inr (nat (fst cv))"
  proof
    fix cv assume "cv \<in> set (stencil (int n) (int i) (int j))"
    then have "cv \<in> (\<lambda>cv. (int (fst cv), snd cv)) `
        set [(i * n + j, - 4), ((i - 1) * n + j, 1), ((i + 1) * n + j, 1),
            (i * n + j + 1, 1), (i * n + j - 1, 1::real)]"
      unfolding st by (simp only: set_map)
    then obtain p where p: "p \<in> set [(i * n + j, - 4), ((i - 1) * n + j, 1),
            ((i + 1) * n + j, 1), (i * n + j + 1, 1), (i * n + j - 1, 1::real)]"
      and cv: "cv = (int (fst p), snd p)"
      by blast
    define c where "c = fst p"
    from p have c: "c < n * n" unfolding c_def using b(5-9) by auto
    then have "int c < int n * int n" by (simp flip: of_nat_mult)
    moreover have "norm_index (int c) (n * n) = Inr (nat (int c))"
      using c by (simp add: norm_index_nat)
    ultimately show "0 \<le> fst cv \<and> fst cv < int n * int n
          \<and> norm_index (fst cv) (n * n) = Inr (nat (fst cv))"
      unfolding cv fst_conv c_def[symmetric] by simp
  qed
  have jn: "j < n" "j + 1 < n" "j - 1 < n" using b(4) by simp_all
  have e1: "i * n + j + 1 = i * n + (j + 1)" by simp
  have e2: "i * n + j - 1 = i * n + (j - 1)" using b(2) by simp
  have dm: "(i * n + j) div n = i" "(i * n + j) mod n = j"
    "((i - 1) * n + j) div n = i - 1" "((i - 1) * n + j) mod n = j"
    "((i + 1) * n + j) div n = i + 1" "((i + 1) * n + j) mod n = j"
    "(i * n + j + 1) div n = i" "(i * n + j + 1) mod n = j + 1"
    "(i * n + j - 1) div n = i" "(i * n + j - 1) mod n = j - 1"
    unfolding e1 e2
    using index_div_mod[OF jn(1)] index_div_mod[OF jn(2)] index_div_mod[OF jn(3)]
    by blast+
  have nb: "map (\<lambda>cv. (fst cv div int n, fst cv mod int n)) (stencil (int n) (int i) (int j))
           = [(int i, int j), (int i - 1, int j), (int i + 1, int j),
              (int i, int j + 1), (int i, int j - 1)]"
    unfolding st list.map fst_conv zdiv_int[symmetric] zmod_int[symmetric] dm
    using b(1,2) by (simp add: of_nat_diff)
  have "0 \<le> int i - 1 \<and> int i + 1 < int n \<and> 0 \<le> int j - 1 \<and> int j + 1 < int n"
    using b(1-4) by auto
  moreover have "\<exists>AB. matrix_builder_g (\<lambda>x y. Inr (gb x y)) (int n) L = Inr AB"
    by (simp add: matrix_builder_g_total[OF ov])
  ultimately show ?thesis using rng nb by blast
qed

theorem stencil_indices_in_range_witness:
  "grid 3 2 = Inr ([[-1, -1, -1], [0, 0, 0], [1, 1, 1]], [[-1, 0, 1], [-1, 0, 1], [-1, 0, 1]])
   \<and> is_inside 2 [[-1, -1, -1], [0, 0, 0], [1, 1, 1]] [[-1, 0, 1], [-1, 0, 1], [-1, 0, 1]] 1 1
   \<and> map fst (stencil 3 1 1) = [4, 1, 7, 5, 3]
   \<and> map (\<lambda>cv. norm_index (fst cv) 9) (stencil 3 1 1) = [Inr 4, Inr 1, Inr 7, Inr 5, Inr 3]"
proof -
  have g: "grid (int 3) 2 = Inr ([[-1, -1, -1], [0, 0, 0], [1, 1, 1]], [[-1, 0, 1], [-1, 0, 1], [-1, 0, 1]])"
  proof -
    have r: "replicate 3 x = [x, x, x]" for x :: 'a by (simp add: numeral_3_eq_3)
    show ?thesis
      unfolding grid_ok[OF no_overflow_2(1)] by (simp add: grid_point_3_2 upt_conv_Cons r)
  qed
  have i: "is_inside 2 [[-1, -1, -1], [0, 0, 0], [1, 1, 1]] [[-1, 0, 1], [-1, 0, 1], [-1, 0, 1]] 1 1"
    by (simp add: is_inside_def)
  from stencil_indices_in_range[of 3 2 1 1, OF _ _ _ _ g i] g i show ?thesis
    by (simp add: stencil_def norm_index_def)
qed




text \<open>
  Claim C7. \<open>toField(X, N)[i][j] = X[i N + j]\<close>, and \<open>toField\<close> and \<open>toVector\<close> are mutual
  inverses: for a vector \<open>X\<close> of length \<open>N\<^sup>2\<close>, \<open>toVector(toField(X, N), N) = X\<close>, and for an
  \<open>N \<times> N\<close> field \<open>F\<close>, \<open>toField(toVector(F, N), N) = F\<close>. \<open>toField\<close> is the reshape of
  the code; \<open>toVector\<close> is modelled from the specification.
\<close>

theorem codec_round_trip:
  "(length X = N * N \<longrightarrow>
      (\<exists>F. reshape X (int N) = Inr F \<and> (\<forall>i<N. \<forall>j<N. F ! i ! j = X ! (i * N + j))
          \<and> toVector F N = Inr X))
 \<and> (length F = N \<and> (\<forall>r\<in>set F. length r = N) \<longrightarrow>
      (\<exists>X. toVector F N = Inr X \<and> length X = N * N \<and> reshape X (int N) = Inr F))"
proof (intro conjI impI)
  assume len: "length X = N * N"
  let ?F = "map (\<lambda>i. take N (drop (i * N) X)) [0..<N]"
  have r: "reshape X (int N) = Inr ?F"
    using len by (simp add: reshape_def)
  have e: "\<forall>i<N. \<forall>j<N. ?F ! i ! j = X ! (i * N + j)"
    using reshape_row_nth[OF len] by simp
  have rows: "\<forall>r\<in>set ?F. length r = N"
  proof
    fix r assume "r \<in> set ?F"
    then obtain i where i: "i < N" and r: "r = take N (drop (i * N) X)" by auto
    from i have "Suc i * N \<le> N * N" by (intro mult_le_mono1) simp
    then have "i * N + N \<le> N * N" by simp
    then show "length r = N" using len r by simp
  qed
  have cc: "concat ?F = X" using len by (simp add: concat_reshape_rows)
  have "toVector ?F N = Inr (concat ?F)" using rows by (simp add: toVector_def)
  then have "toVector ?F N = Inr X" by (simp only: cc)
  with r e show "\<exists>F. reshape X (int N) = Inr F \<and> (\<forall>i<N. \<forall>j<N. F ! i ! j = X ! (i * N + j))
          \<and> toVector F N = Inr X"
    by blast
next
  assume F: "length F = N \<and> (\<forall>r\<in>set F. length r = N)"
  then have "length (concat F) = length F * N" by (intro length_concat_square) simp
  with F have len: "length (concat F) = N * N" by simp
  have rows: "map (\<lambda>i. take N (drop (i * N) (concat F))) [0..<N] = F"
    using F by (intro nth_equalityI) (simp_all add: concat_row)
  have "reshape (concat F) (int N) =
          Inr (map (\<lambda>i. take N (drop (i * N) (concat F))) [0..<N])"
    using len by (simp add: reshape_def)
  then have "reshape (concat F) (int N) = Inr F"
    by (simp only: rows)
  moreover have "toVector F N = Inr (concat F)" using F by (simp add: toVector_def)
  ultimately show "\<exists>X. toVector F N = Inr X \<and> length X = N * N \<and> reshape X (int N) = Inr F"
    using len by blast
qed

theorem codec_round_trip_witness:
  "reshape [1, 2, 3, 4] 2 = Inr [[1, 2], [3, 4]] \<and> toVector [[1, 2], [3, 4]] 2 = Inr [1, 2, 3, 4]"
proof -
  have r: "reshape [1, 2, 3, 4] (int 2) = Inr [[1, 2], [3, 4]]"
    by (simp add: reshape_def upt_conv_Cons)
  from codec_round_trip[of "[1, 2, 3, 4]" 2 "[[1, 2], [3, 4]]"] r show ?thesis
    by simp
qed

text \<open>
  Claim C3 says that the dense solver entry point takes the boundary function as an
  argument and returns a field. \<^verbatim>\<open>naive_solver(N, L, plot=False)\<close> has no such argument and
  no \<^verbatim>\<open>return\<close> statement: at \<open>N = 2\<close>, \<open>L = 2\<close>, where \<open>A\<close> is the identity and the solution
  of the system is \<open>B\<close> itself, the call returns \<^verbatim>\<open>None\<close>, with \<^verbatim>\<open>plot\<close> or without.
\<close>

theorem naive_solver_returns_none_counterexample:
  "naive_solver (\<lambda>A B. Inr B) 2 2 False = Inr (PyNone, [])
   \<and> map_sum id fst (naive_solver (\<lambda>A B. Inr B) 2 2 True) = Inr PyNone"
proof -
  have r: "reshape [- 1, - 1, - 1, - 1] 2 = Inr [[- 1, - 1], [- 1, - 1]]"
    by (simp add: reshape_def upt_conv_Cons)
  have "\<exists>fig. plot_solution 2 2 [- 1, - 1, - 1, - 1] = Inr fig"
    by (simp add: plot_solution_def r linspace_def overflows_def)
  then show ?thesis
    by (auto simp: naive_solver_def matrix_solver_def matrix_builder_2_2)
qed

text \<open>
  Claim C3 as amended. \<^verbatim>\<open>naive_solver(N, L, plot)\<close> takes no boundary function: the system
  it solves is the one of the nested \<open>g(x, y) = cos(2\<pi>(2x + y)/L)\<close>. For \<open>N \<ge> 2\<close> and
  \<open>L > 0\<close>, when the LU solver returns a vector \<open>X\<close> of length \<open>N\<^sup>2\<close>, the call returns
  \<^verbatim>\<open>None\<close>; with \<^verbatim>\<open>plot=True\<close> it reshapes \<open>X\<close> to the field \<open>z_grid[i][j] = X[i N + j]\<close> and
  gives its transpose to the plotting library, and with \<^verbatim>\<open>plot=False\<close> it produces
  nothing.
\<close>

theorem naive_solver_outcome:
  assumes "2 \<le> n" and "0 < L" and "matrix_builder (int n) L = Inr (A, B)"
    and "lu A B = Inr X" and "length X = n * n"
  shows "naive_solver lu (int n) L False = Inr (PyNone, [])
       \<and> (\<exists>fig. naive_solver lu (int n) L True = Inr (PyNone, [fig])
            \<and> (\<forall>i<n. \<forall>j<n. colours fig ! j ! i = X ! (i * n + j)))
       \<and> B = map (rhs_of (\<lambda>x y. cos (2 * pi / L * (2 * x + y))) n L) [0..<n * n]"
proof -
  have f: "naive_solver lu (int n) L False = Inr (PyNone, [])"
    using assms(3,4) by (simp add: naive_solver_def matrix_solver_def)
  have ov: "\<not> overflows L"
  proof
    assume "overflows L"
    moreover have "0 < n" using assms(1) by simp
    ultimately have "matrix_builder (int n) L = Inl OverflowError"
      by (intro matrix_builder_overflow)
    with assms(3) show False by simp
  qed
  have ov2: "\<not> overflows (L / 2)" using ov overflows_half by blast
  let ?F = "map (\<lambda>i. take n (drop (i * n) X)) [0..<n]"
  obtain xc yc where "plot_solution (int n) L X =
      Inr \<lparr>x_corner_points = xc, y_corner_points = yc, colours = T ?F\<rparr>"
    using plot_solution_returns[OF assms(1,5) ov] by blast
  let ?fig = "\<lparr>x_corner_points = xc, y_corner_points = yc, colours = T ?F\<rparr>"
  have "plot_solution (int n) L X = Inr ?fig" by fact
  then have t: "naive_solver lu (int n) L True = Inr (PyNone, [?fig])"
    using assms(3,4) by (simp add: naive_solver_def matrix_solver_def)
  have c: "\<forall>i<n. \<forall>j<n. colours ?fig ! j ! i = X ! (i * n + j)"
    using T_reshape_nth[OF assms(5)] by simp
  have L0: "L \<noteq> 0" using assms(2) by simp
  have "matrix_builder (int n) L =
      Inr (state_upto (\<lambda>x y. cos (2 * pi / L * (2 * x + y))) n L (n * n))"
    unfolding matrix_builder_def g_total[OF L0 ov] by (rule matrix_builder_g_total[OF ov2])
  with assms(3) have "B = map (rhs_of (\<lambda>x y. cos (2 * pi / L * (2 * x + y))) n L) [0..<n * n]"
    by (auto simp: state_upto_def)
  with f t c show ?thesis by blast
qed

theorem naive_solver_outcome_witness:
  "naive_solver (\<lambda>A B. Inr B) 2 2 False = Inr (PyNone, [])
   \<and> (\<exists>fig. naive_solver (\<lambda>A B. Inr B) 2 2 True = Inr (PyNone, [fig])
        \<and> colours fig ! 0 ! 0 = - 1 \<and> colours fig ! 0 ! 1 = - 1
        \<and> colours fig ! 1 ! 0 = - 1 \<and> colours fig ! 1 ! 1 = - 1)"
proof -
  have mb: "matrix_builder (int 2) 2 =
     Inr ([[1, 0, 0, 0], [0, 1, 0, 0], [0, 0, 1, 0], [0, 0, 0, 1]], [- 1, - 1, - 1, - 1])"
    using matrix_builder_2_2 by simp
  have len: "length [- 1, - 1, - 1, - 1 :: real] = 2 * 2" by simp
  have nth: "[- 1, - 1, - 1, - 1 :: real] ! k = - 1" if "k < 4" for k
    using that by (auto simp: less_Suc_eq numeral_eq_Suc)
  have idx: "i * 2 + j < 4" if "i < 2" "j < 2" for i j :: nat
    using that by simp
  have p1: "2 \<le> (2::nat)" and p2: "0 < (2::real)" by simp_all
  note th = naive_solver_outcome[where lu = "\<lambda>A B. Inr B" and X = "[- 1, - 1, - 1, - 1]",
      OF p1 p2 mb refl len]
  from th have f: "naive_solver (\<lambda>A B. Inr B) (int 2) 2 False = Inr (PyNone, [])"
    by (rule conjunct1)
  from th obtain fig
    where t: "naive_solver (\<lambda>A B. Inr B) (int 2) 2 True = Inr (PyNone, [fig])"
    and c: "\<forall>i<2. \<forall>j<2. colours fig ! j ! i = [- 1, - 1, - 1, - 1] ! (i * 2 + j)"
    by blast
  from c have "\<forall>i<2. \<forall>j<2. colours fig ! j ! i = - 1"
    using nth idx by metis
  then have "colours fig ! 0 ! 0 = - 1 \<and> colours fig ! 0 ! 1 = - 1
        \<and> colours fig ! 1 ! 0 = - 1 \<and> colours fig ! 1 ! 1 = - 1"
    by simp
  with f t show ?thesis by auto
qed




text \<open>
  Claim C9. The builder is deterministic and without side effects. On any store a call
  fails with the error of the function \<open>matrix_builder_g\<close>, or returns the addresses of two
  new arrays that hold the \<open>A\<close> and \<open>B\<close> of that function. So two calls with the same \<open>N\<close>,
  \<open>L\<close> and boundary function give equal results whatever the stores they start from, and
  the arrays that existed before a call are unchanged after it: the final store is the
  initial one followed by \<open>A\<close> and \<open>B\<close>.
\<close>

theorem builder_deterministic_and_pure:
  "returned_arrays (matrix_builder_store gf N L s1)
     = returned_arrays (matrix_builder_store gf N L s2)
 \<and> returned_arrays (matrix_builder_store gf N L s1)
     = map_sum id (\<lambda>AB. (Array2 (fst AB), Array1 (snd AB))) (matrix_builder_g gf N L)
 \<and> (\<forall>pA pB s'. matrix_builder_store gf N L s1 = Inr ((pA, pB), s') \<longrightarrow>
       take (length s1) s' = s1 \<and> length s' = length s1 + 2
     \<and> pA = length s1 \<and> pB = length s1 + 1)"
proof -
  have r: "returned_arrays (matrix_builder_store gf N L s)
     = map_sum id (\<lambda>AB. (Array2 (fst AB), Array1 (snd AB))) (matrix_builder_g gf N L)" for s
    unfolding matrix_builder_store_eq returned_arrays_def
    by (cases "matrix_builder_g gf N L") (simp_all add: nth_append)
  have f: "take (length s1) s' = s1 \<and> length s' = length s1 + 2
     \<and> pA = length s1 \<and> pB = length s1 + 1"
    if "matrix_builder_store gf N L s1 = Inr ((pA, pB), s')" for pA pB s'
    using that unfolding matrix_builder_store_eq
    by (cases "matrix_builder_g gf N L") auto
  have "returned_arrays (matrix_builder_store gf N L s1)
     = returned_arrays (matrix_builder_store gf N L s2)"
    by (simp only: r)
  with r[of s1] f show ?thesis by blast
qed

theorem builder_deterministic_and_pure_witness:
  "matrix_builder_store (\<lambda>x y. Inr 1) 2 2 [Array1 [5]] =
     Inr ((1, 2), [Array1 [5], Array2 [[1, 0, 0, 0], [0, 1, 0, 0], [0, 0, 1, 0], [0, 0, 0, 1]],
                   Array1 [1, 1, 1, 1]])
 \<and> take (length [Array1 [5]])
      [Array1 [5], Array2 [[1, 0, 0, 0], [0, 1, 0, 0], [0, 0, 1, 0], [0, 0, 0, 1]],
       Array1 [1, 1, 1, 1]] = [Array1 [5]]
 \<and> returned_arrays (matrix_builder_store (\<lambda>x y. Inr 1) 2 2 [Array1 [5]])
     = returned_arrays (matrix_builder_store (\<lambda>x y. Inr 1) 2 2 [])"
proof -
  have e: "matrix_builder_store (\<lambda>x y. Inr 1) 2 2 [Array1 [5]] =
     Inr ((1, 2), [Array1 [5], Array2 [[1, 0, 0, 0], [0, 1, 0, 0], [0, 0, 1, 0], [0, 0, 0, 1]],
                   Array1 [1, 1, 1, 1]])"
    by (simp add: matrix_builder_store_eq matrix_builder_g_const_2_2)
  from builder_deterministic_and_pure[of "\<lambda>x y. Inr 1" 2 2 "[Array1 [5]]" "[]"] e
  show ?thesis by simp
qed

end
